theory Spec2Isabelle
  imports Main "HOL-Library.Word" "HOL-Library.Signed_Division"
begin

section \<open>Data model of package proxypool\<close>

text \<open>
  Go's \<open>int\<close> and \<open>int64\<close> are modelled as 64-bit words read in two's complement
  (a 64-bit platform): \<open>+\<close> wraps, \<open><s\<close> and \<open>\<le>s\<close> are the signed comparisons.
  A \<open>time.Time\<close> is the reading of one clock in nanoseconds, an unbounded integer;
  \<open>Before\<close> and \<open>After\<close> are the strict orders on it. The zero \<open>time.Time\<close> of a
  field that was never assigned is \<open>None\<close>.
\<close>

type_synonym int64 = "64 word"
type_synonym time = int

record ProxyItem =
  IP :: string
  Port :: string
  usedCount :: int64
  maxUseCount :: int64
  expireTime :: time
  createTime :: time
  lastUseTime :: "time option"

text \<open>
  \<open>time.Duration(expireSeconds) * time.Second\<close> is an \<open>int64\<close> product and wraps.
\<close>

definition seconds :: "int64 \<Rightarrow> int" where
  "seconds n = sint (n * 1000000000)"

text \<open>
  \<open>NewProxyItemWithConfig\<close> reads the clock twice: \<open>tExpire\<close> is the reading the
  expiry is computed from, \<open>tCreate\<close> the one stored as creation time.
\<close>

definition NewProxyItemWithConfig ::
  "time \<Rightarrow> time \<Rightarrow> string \<Rightarrow> string \<Rightarrow> int64 \<Rightarrow> int64 \<Rightarrow> ProxyItem" where
  "NewProxyItemWithConfig tExpire tCreate ip port maxUse expireSecs =
     \<lparr> IP = ip, Port = port, usedCount = 0, maxUseCount = maxUse,
       expireTime = tExpire + seconds expireSecs, createTime = tCreate,
       lastUseTime = None \<rparr>"

definition String :: "ProxyItem \<Rightarrow> string" where
  "String p = IP p @ '':'' @ Port p"

definition IsAvailable :: "time \<Rightarrow> ProxyItem \<Rightarrow> bool" where
  "IsAvailable now p \<longleftrightarrow> now < expireTime p \<and> usedCount p <s maxUseCount p"

definition IsExpired :: "time \<Rightarrow> ProxyItem \<Rightarrow> bool" where
  "IsExpired now p \<longleftrightarrow> expireTime p < now"

definition IsMaxUsed :: "ProxyItem \<Rightarrow> bool" where
  "IsMaxUsed p \<longleftrightarrow> maxUseCount p \<le>s usedCount p"

text \<open>
  \<open>IncrementUseCount\<close> is a compare-and-swap loop on the counter. One iteration loads
  the counter, returns false when it has reached the limit, and otherwise tries to swap
  in the successor. The swap fails only when another goroutine has changed the counter
  since the load; the first argument lists, for each failed swap of this call, the value
  the next load then reads. With the empty list no other goroutine interferes and the
  first swap succeeds. \<open>now\<close> is the clock reading stored as last-use time.
\<close>

fun IncrementUseCount :: "int64 list \<Rightarrow> time \<Rightarrow> ProxyItem \<Rightarrow> bool \<times> ProxyItem" where
  "IncrementUseCount [] now p =
     (let current = usedCount p in
      if maxUseCount p \<le>s current then (False, p)
      else (True, p\<lparr>usedCount := current + 1, lastUseTime := Some now\<rparr>))"
| "IncrementUseCount (v # vs) now p =
     (let current = usedCount p in
      if maxUseCount p \<le>s current then (False, p)
      else IncrementUseCount vs now (p\<lparr>usedCount := v\<rparr>))"

section \<open>The pool container\<close>

datatype error =
    ErrNoAvailableProxy
  | ErrPoolNotInit
  | ErrAPIURLEmpty
  | ErrFetchFuncUnset
  | SupplierError string

record ProxyAddr =
  AddrIP :: string
  AddrPort :: string

text \<open>
  A \<open>FetchFunc\<close> returns Go's pair of a batch and an error; \<open>None\<close> is the nil error.
  A nil \<open>FetchFunc\<close> is \<open>None\<close>. The two callbacks are opaque to the pool: the fields
  \<open>onProxyGet\<close> and \<open>onRefresh\<close> say whether one is set, and each invocation is
  recorded, with its arguments, in the list of events an operation returns.
\<close>

type_synonym FetchFunc = "string \<Rightarrow> ProxyAddr list \<times> error option"

datatype event =
    FetchCalled string
  | OnRefreshCalled int "error option"
  | OnProxyGetCalled ProxyItem
  | RefreshSync
  | RefreshAsync

text \<open>
  The slice \<open>proxies\<close> holds pointers to items that only \<open>AddProxy\<close> allocates, one
  fresh item per slot; the model keeps each item in its slot. The default use limit of
  the pool is the field \<open>maxUseCount\<close> of the source, renamed because the item has a
  field of that name.
\<close>

record ProxyPool =
  proxies :: "ProxyItem list"
  apiURL :: string
  maxUseCountDefault :: int64
  expireSeconds :: int64
  minPoolSize :: int64
  fetchFunc :: "FetchFunc option"
  onProxyGet :: bool
  onRefresh :: bool
  roundRobinIdx :: int64

record Config =
  APIURL :: string
  MaxUseCount :: int64
  ExpireSeconds :: int64
  MinPoolSize :: int64
  FetchFunc :: "FetchFunc option"
  OnProxyGet :: bool
  OnRefresh :: bool

definition New :: "Config \<Rightarrow> ProxyPool" where
  "New cfg0 =
     (let cfg1 = (if MaxUseCount cfg0 \<le>s 0 then cfg0\<lparr>MaxUseCount := 5\<rparr> else cfg0);
          cfg2 = (if ExpireSeconds cfg1 \<le>s 0 then cfg1\<lparr>ExpireSeconds := 180\<rparr> else cfg1);
          cfg = (if MinPoolSize cfg2 \<le>s 0 then cfg2\<lparr>MinPoolSize := 3\<rparr> else cfg2)
      in \<lparr> proxies = [], apiURL = APIURL cfg, maxUseCountDefault = MaxUseCount cfg,
           expireSeconds = ExpireSeconds cfg, minPoolSize = MinPoolSize cfg,
           fetchFunc = FetchFunc cfg, onProxyGet = OnProxyGet cfg,
           onRefresh = OnRefresh cfg, roundRobinIdx = 0 \<rparr>)"

definition SetAPIURL :: "string \<Rightarrow> ProxyPool \<Rightarrow> ProxyPool" where
  "SetAPIURL url p = p\<lparr>apiURL := url\<rparr>"

definition SetMaxUseCount :: "int64 \<Rightarrow> ProxyPool \<Rightarrow> ProxyPool" where
  "SetMaxUseCount count p = p\<lparr>maxUseCountDefault := count\<rparr>"

definition SetExpireSeconds :: "int64 \<Rightarrow> ProxyPool \<Rightarrow> ProxyPool" where
  "SetExpireSeconds secs p = p\<lparr>expireSeconds := secs\<rparr>"

definition SetMinPoolSize :: "int64 \<Rightarrow> ProxyPool \<Rightarrow> ProxyPool" where
  "SetMinPoolSize n p = p\<lparr>minPoolSize := n\<rparr>"

definition SetFetchFunc :: "FetchFunc option \<Rightarrow> ProxyPool \<Rightarrow> ProxyPool" where
  "SetFetchFunc fn p = p\<lparr>fetchFunc := fn\<rparr>"

definition SetOnProxyGet :: "bool \<Rightarrow> ProxyPool \<Rightarrow> ProxyPool" where
  "SetOnProxyGet fn p = p\<lparr>onProxyGet := fn\<rparr>"

definition SetOnRefresh :: "bool \<Rightarrow> ProxyPool \<Rightarrow> ProxyPool" where
  "SetOnRefresh fn p = p\<lparr>onRefresh := fn\<rparr>"

text \<open>
  \<open>AddProxy\<close> scans the slice for an item whose \<open>String()\<close> is the key and appends a
  new item otherwise. The two clock readings are those of \<open>NewProxyItemWithConfig\<close>.
\<close>

definition AddProxy ::
  "time \<Rightarrow> time \<Rightarrow> string \<Rightarrow> string \<Rightarrow> ProxyPool \<Rightarrow> bool \<times> ProxyPool" where
  "AddProxy tExpire tCreate ip port p =
     (let key = ip @ '':'' @ port in
      if list_ex (\<lambda>proxy. String proxy = key) (proxies p) then (False, p)
      else (True, p\<lparr>proxies := proxies p @
              [NewProxyItemWithConfig tExpire tCreate ip port
                 (maxUseCountDefault p) (expireSeconds p)]\<rparr>))"

text \<open>
  What a call of \<open>Refresh\<close> takes from its environment: whether \<open>refreshMu.TryLock()\<close>
  succeeds (it fails when another \<open>Refresh\<close> holds the lock), and the clock readings for
  the \<open>i\<close>-th address of the batch.
\<close>

record RefreshEnv =
  tryLock :: bool
  addClock :: "nat \<Rightarrow> time \<times> time"

text \<open>
  The insertion loop of \<open>Refresh\<close>. The count is bounded by the length of the batch
  and is kept as an unbounded integer.
\<close>

fun addProxies ::
  "(nat \<Rightarrow> time \<times> time) \<Rightarrow> nat \<Rightarrow> ProxyAddr list \<Rightarrow> int \<Rightarrow> ProxyPool \<Rightarrow> int \<times> ProxyPool" where
  "addProxies clk i [] count p = (count, p)"
| "addProxies clk i (addr # addrs) count p =
     (let (added, p') = AddProxy (fst (clk i)) (snd (clk i)) (AddrIP addr) (AddrPort addr) p
      in addProxies clk (Suc i) addrs (if added then count + 1 else count) p')"

definition Refresh :: "RefreshEnv \<Rightarrow> ProxyPool \<Rightarrow> error option \<times> ProxyPool \<times> event list" where
  "Refresh env p =
     (if apiURL p = [] \<and> Option.is_none (fetchFunc p) then (Some ErrAPIURLEmpty, p, [])
      else if \<not> tryLock env then (None, p, [])
      else
        (let (batch, err, fetched) =
               (case fetchFunc p of
                  Some fn \<Rightarrow> (fst (fn (apiURL p)), snd (fn (apiURL p)), [FetchCalled (apiURL p)])
                | None \<Rightarrow> ([], Some ErrFetchFuncUnset, []))
         in case err of
              Some e \<Rightarrow>
                (Some e, p, fetched @ (if onRefresh p then [OnRefreshCalled 0 (Some e)] else []))
            | None \<Rightarrow>
                (let (count, p') = addProxies (addClock env) 0 batch 0 p
                 in (None, p',
                     fetched @ (if onRefresh p then [OnRefreshCalled count None] else [])))))"

text \<open>
  The slots whose item reports available, in slice order; \<open>clk i\<close> is the clock reading
  of the \<open>IsAvailable\<close> call on slot \<open>i\<close>.
\<close>

definition availableSlots :: "(nat \<Rightarrow> time) \<Rightarrow> ProxyItem list \<Rightarrow> nat list" where
  "availableSlots clk ps = filter (\<lambda>i. IsAvailable (clk i) (ps ! i)) [0..<length ps]"

definition cleanupUnsafe :: "(nat \<Rightarrow> time) \<Rightarrow> ProxyPool \<Rightarrow> ProxyPool" where
  "cleanupUnsafe clk p =
     p\<lparr>proxies := map (\<lambda>i. proxies p ! i) (availableSlots clk (proxies p))\<rparr>"

definition Cleanup :: "(nat \<Rightarrow> time) \<Rightarrow> ProxyPool \<Rightarrow> int \<times> ProxyPool" where
  "Cleanup clk p =
     (let before = int (length (proxies p));
          p' = cleanupUnsafe clk p
      in (before - int (length (proxies p')), p'))"

definition Clear :: "ProxyPool \<Rightarrow> ProxyPool" where
  "Clear p = p\<lparr>proxies := []\<rparr>"

fun removeFirst :: "string \<Rightarrow> ProxyItem list \<Rightarrow> bool \<times> ProxyItem list" where
  "removeFirst key [] = (False, [])"
| "removeFirst key (proxy # rest) =
     (if String proxy = key then (True, rest)
      else (let (found, rest') = removeFirst key rest in (found, proxy # rest')))"

definition RemoveByString :: "string \<Rightarrow> ProxyPool \<Rightarrow> bool \<times> ProxyPool" where
  "RemoveByString proxyStr p =
     (let (found, ps) = removeFirst proxyStr (proxies p) in (found, p\<lparr>proxies := ps\<rparr>))"

definition Remove :: "string \<Rightarrow> string \<Rightarrow> ProxyPool \<Rightarrow> bool \<times> ProxyPool" where
  "Remove ip port p = RemoveByString (ip @ '':'' @ port) p"

definition Size :: "ProxyPool \<Rightarrow> int" where
  "Size p = int (length (proxies p))"

definition AvailableCount :: "(nat \<Rightarrow> time) \<Rightarrow> ProxyPool \<Rightarrow> int" where
  "AvailableCount clk p = int (length (availableSlots clk (proxies p)))"

text \<open>
  What a call of \<open>Get\<close> takes from its environment: the clock readings of the cleanup
  pass and of the pass that builds the available list (by slot), the environment of the
  synchronous \<open>Refresh\<close> (used on the empty-pool path only), the clock reading stored as
  last-use time, and the interference of other goroutines that hold a pointer to the
  selected item: \<open>raceBefore\<close> is the value they left in its counter between the
  availability check and the claim (\<open>None\<close> when they did not touch it), \<open>raceCAS\<close> is
  the argument of \<open>IncrementUseCount\<close>.
\<close>

record GetEnv =
  cleanupClock :: "nat \<Rightarrow> time"
  refreshEnv :: RefreshEnv
  availableClock :: "nat \<Rightarrow> time"
  raceBefore :: "int64 option"
  raceCAS :: "int64 list"
  useClock :: time

datatype GetResult =
    Proxy ProxyItem
  | Error error
  | PanicIndexOutOfRange

text \<open>
  The first half of \<open>Get\<close>: the cleanup pass, then the refresh decision. The
  synchronous \<open>Refresh\<close> runs to its end before \<open>Get\<close> goes on, and its result is
  dropped; \<open>go p.Refresh()\<close> only starts a goroutine, recorded as \<open>RefreshAsync\<close>,
  whose effects are not part of this call.
\<close>

definition Get_replenish :: "GetEnv \<Rightarrow> ProxyPool \<Rightarrow> ProxyPool \<times> event list" where
  "Get_replenish env p0 =
     (let p = cleanupUnsafe (cleanupClock env) p0 in
      if length (proxies p) = 0 then
        (let (err, p', evs) = Refresh (refreshEnv env) p in (p', RefreshSync # evs))
      else if int (length (proxies p)) < sint (minPoolSize p) then (p, [RefreshAsync])
      else (p, []))"

text \<open>
  The second half of \<open>Get\<close>: build the available list, select by the cursor, claim.
  Go's \<open>%\<close> truncates towards zero (\<open>smod\<close>), so a negative cursor can give a negative
  index, and \<open>available[idx]\<close> then panics after the cursor has been advanced.
  The claimed item is written back to its slot, since \<open>available\<close> holds pointers into
  the slice; the returned item is the state of that slot after the claim.
\<close>

definition Get_select :: "GetEnv \<Rightarrow> ProxyPool \<times> event list \<Rightarrow> GetResult \<times> ProxyPool \<times> event list" where
  "Get_select env st =
     (let (p, evs) = st;
          available = availableSlots (availableClock env) (proxies p)
      in if length available = 0 then (Error ErrNoAvailableProxy, p, evs)
         else
           (let idx = sint (roundRobinIdx p) smod int (length available);
                p1 = p\<lparr>roundRobinIdx := roundRobinIdx p + 1\<rparr>
            in if idx < 0 then (PanicIndexOutOfRange, p1, evs)
               else
                 (let slot = available ! nat idx;
                      loaded = (case raceBefore env of
                                  None \<Rightarrow> proxies p1 ! slot
                                | Some v \<Rightarrow> (proxies p1 ! slot)\<lparr>usedCount := v\<rparr>);
                      (claimed, proxy) = IncrementUseCount (raceCAS env) (useClock env) loaded;
                      p2 = p1\<lparr>proxies := (proxies p1)[slot := proxy]\<rparr>
                  in if claimed then
                       (Proxy proxy, p2,
                        evs @ (if onProxyGet p2 then [OnProxyGetCalled proxy] else []))
                     else (Error ErrNoAvailableProxy, p2, evs))))"

definition Get :: "GetEnv \<Rightarrow> ProxyPool \<Rightarrow> GetResult \<times> ProxyPool \<times> event list" where
  "Get env p = Get_select env (Get_replenish env p)"

record Stats =
  Total :: int
  Available :: int
  Expired :: int
  MaxUsed :: int

text \<open>
  The loop of \<open>GetStats\<close>; \<open>clk i\<close> holds the clock readings of \<open>IsAvailable\<close> and of
  \<open>IsExpired\<close> on slot \<open>i\<close>.
\<close>

fun statsLoop :: "(nat \<Rightarrow> time \<times> time) \<Rightarrow> nat \<Rightarrow> ProxyItem list \<Rightarrow> Stats \<Rightarrow> Stats" where
  "statsLoop clk i [] stats = stats"
| "statsLoop clk i (proxy # rest) stats =
     (let s1 = (if IsAvailable (fst (clk i)) proxy
                then stats\<lparr>Available := Available stats + 1\<rparr> else stats);
          s2 = (if IsExpired (snd (clk i)) proxy then s1\<lparr>Expired := Expired s1 + 1\<rparr> else s1);
          s3 = (if IsMaxUsed proxy then s2\<lparr>MaxUsed := MaxUsed s2 + 1\<rparr> else s2)
      in statsLoop clk (Suc i) rest s3)"

definition GetStats :: "(nat \<Rightarrow> time \<times> time) \<Rightarrow> ProxyPool \<Rightarrow> Stats" where
  "GetStats clk p =
     statsLoop clk 0 (proxies p)
       \<lparr> Total = int (length (proxies p)), Available = 0, Expired = 0, MaxUsed = 0 \<rparr>"


section \<open>Auxiliary notions for the statements\<close>

text \<open>
  For stating what a counting loop returns: the number of slots whose item satisfies a
  predicate that may depend on the slot.
\<close>

definition count_slots :: "(nat \<Rightarrow> ProxyItem \<Rightarrow> bool) \<Rightarrow> ProxyItem list \<Rightarrow> int" where
  "count_slots P ps = int (length (filter (\<lambda>i. P i (ps ! i)) [0..<length ps]))"

text \<open>
  The pools a program can build: \<open>New\<close>, then any sequence of the operations of the
  pool. The last rule is for callers that hold a pointer to an item and call its
  methods (\<open>IncrementUseCount\<close>, \<open>SetMaxUseCount\<close>, \<open>SetExpireTime\<close>,
  \<open>ExtendExpireTime\<close>, \<open>Reset\<close>), none of which writes \<open>IP\<close> or \<open>Port\<close>.
\<close>

inductive reachable :: "ProxyPool \<Rightarrow> bool" where
  reach_New: "reachable (New cfg)"
| reach_SetAPIURL: "reachable p \<Longrightarrow> reachable (SetAPIURL url p)"
| reach_SetMaxUseCount: "reachable p \<Longrightarrow> reachable (SetMaxUseCount n p)"
| reach_SetExpireSeconds: "reachable p \<Longrightarrow> reachable (SetExpireSeconds n p)"
| reach_SetMinPoolSize: "reachable p \<Longrightarrow> reachable (SetMinPoolSize n p)"
| reach_SetFetchFunc: "reachable p \<Longrightarrow> reachable (SetFetchFunc fn p)"
| reach_SetOnProxyGet: "reachable p \<Longrightarrow> reachable (SetOnProxyGet b p)"
| reach_SetOnRefresh: "reachable p \<Longrightarrow> reachable (SetOnRefresh b p)"
| reach_AddProxy: "reachable p \<Longrightarrow> reachable (snd (AddProxy t t' ip port p))"
| reach_Refresh: "reachable p \<Longrightarrow> reachable (fst (snd (Refresh renv p)))"
| reach_Get: "reachable p \<Longrightarrow> reachable (fst (snd (Get env p)))"
| reach_Cleanup: "reachable p \<Longrightarrow> reachable (snd (Cleanup clk p))"
| reach_Clear: "reachable p \<Longrightarrow> reachable (Clear p)"
| reach_Remove: "reachable p \<Longrightarrow> reachable (snd (Remove ip port p))"
| reach_RemoveByString: "reachable p \<Longrightarrow> reachable (snd (RemoveByString key p))"
| reach_item:
    "reachable p \<Longrightarrow> i < length (proxies p) \<Longrightarrow>
     IP x = IP (proxies p ! i) \<Longrightarrow> Port x = Port (proxies p ! i) \<Longrightarrow>
     reachable (p\<lparr>proxies := (proxies p)[i := x]\<rparr>)"

code_pred reachable .

text \<open>The identities \<open>ip:port\<close> of the items of a pool, in slice order.\<close>

definition keys :: "ProxyPool \<Rightarrow> string list" where
  "keys p = map String (proxies p)"

text \<open>
  Names for two values inside \<open>Get_select\<close>: the slot that the cursor selects, and
  the outcome of the claim on the item in that slot.
\<close>

definition selectedSlot :: "GetEnv \<Rightarrow> ProxyPool \<Rightarrow> nat" where
  "selectedSlot env p =
     availableSlots (availableClock env) (proxies p) !
       nat (sint (roundRobinIdx p) smod
            int (length (availableSlots (availableClock env) (proxies p))))"

definition claimSelected :: "GetEnv \<Rightarrow> ProxyPool \<Rightarrow> bool \<times> ProxyItem" where
  "claimSelected env p =
     IncrementUseCount (raceCAS env) (useClock env)
       (case raceBefore env of
          None \<Rightarrow> proxies p ! selectedSlot env p
        | Some v \<Rightarrow> (proxies p ! selectedSlot env p)\<lparr>usedCount := v\<rparr>)"

text \<open>The invocations of the on-refresh callback among the events, with their arguments.\<close>

fun onRefreshCalls :: "event list \<Rightarrow> (int \<times> error option) list" where
  "onRefreshCalls [] = []"
| "onRefreshCalls (OnRefreshCalled n e # evs) = (n, e) # onRefreshCalls evs"
| "onRefreshCalls (ev # evs) = onRefreshCalls evs"

text \<open>
  Names for three values inside \<open>Get\<close>: the pool that the selection works on (after
  the cleanup pass and the refresh decision), the list of available slots built from
  it, and the index computed from the cursor.
\<close>

definition Get_pool :: "GetEnv \<Rightarrow> ProxyPool \<Rightarrow> ProxyPool" where
  "Get_pool env p = fst (Get_replenish env p)"

definition Get_available :: "GetEnv \<Rightarrow> ProxyPool \<Rightarrow> nat list" where
  "Get_available env p = availableSlots (availableClock env) (proxies (Get_pool env p))"

definition Get_idx :: "GetEnv \<Rightarrow> ProxyPool \<Rightarrow> int" where
  "Get_idx env p = sint (roundRobinIdx (Get_pool env p)) smod int (length (Get_available env p))"

text \<open>
  Successive calls of \<open>Get\<close> on one pool, with nothing else touching the pool in
  between; each call has its own environment.
\<close>

fun Gets :: "GetEnv list \<Rightarrow> ProxyPool \<Rightarrow> GetResult list \<times> ProxyPool" where
  "Gets [] p = ([], p)"
| "Gets (env # envs) p =
     (let (r, p', evs) = Get env p;
          (rs, p'') = Gets envs p'
      in (r # rs, p''))"

text \<open>
  How many of the \<open>k\<close> successive cursor values from \<open>c\<close> on select slot \<open>i\<close> of
  \<open>n\<close>.
\<close>

definition visits :: "nat \<Rightarrow> nat \<Rightarrow> nat \<Rightarrow> nat \<Rightarrow> nat" where
  "visits c k n i = length (filter (\<lambda>j. (c + j) mod n = i) [0..<k])"

text \<open>The identity of the item a call returned, if it returned one.\<close>

fun returned :: "GetResult \<Rightarrow> string option" where
  "returned (Proxy x) = Some (String x)"
| "returned (Error e) = None"
| "returned PanicIndexOutOfRange = None"

section \<open>Example data\<close>

text \<open>
  Concrete items, configurations, clocks, suppliers, environments and pools, for the
  theorems that evaluate the model.
\<close>

definition exampleItem :: "int64 \<Rightarrow> int64 \<Rightarrow> time \<Rightarrow> ProxyItem" where
  "exampleItem used limit expiry =
     \<lparr> IP = ''10.0.0.1'', Port = ''8080'', usedCount = used, maxUseCount = limit,
       expireTime = expiry, createTime = 0, lastUseTime = None \<rparr>"

definition exampleConfig :: "int64 \<Rightarrow> int64 \<Rightarrow> int64 \<Rightarrow> Config" where
  "exampleConfig maxUse expireSecs minSize =
     \<lparr> APIURL = ''http://supplier/get'', MaxUseCount = maxUse, ExpireSeconds = expireSecs,
       MinPoolSize = minSize, FetchFunc = None, OnProxyGet = True, OnRefresh = True \<rparr>"

definition fixedClock :: "time \<Rightarrow> nat \<Rightarrow> time" where
  "fixedClock t = (\<lambda>i. t)"

definition fixedClock2 :: "time \<Rightarrow> nat \<Rightarrow> time \<times> time" where
  "fixedClock2 t = (\<lambda>i. (t, t))"

definition exampleRefreshEnv :: "bool \<Rightarrow> RefreshEnv" where
  "exampleRefreshEnv free = \<lparr> tryLock = free, addClock = fixedClock2 0 \<rparr>"

definition exampleFetch :: FetchFunc where
  "exampleFetch url =
     ([\<lparr> AddrIP = ''10.0.0.1'', AddrPort = ''8080'' \<rparr>,
       \<lparr> AddrIP = ''10.0.0.2'', AddrPort = ''8080'' \<rparr>,
       \<lparr> AddrIP = ''10.0.0.1'', AddrPort = ''8080'' \<rparr>], None)"

definition failingFetch :: FetchFunc where
  "failingFetch url = ([], Some (SupplierError ''timeout''))"

definition exampleGetEnv :: "int64 option \<Rightarrow> GetEnv" where
  "exampleGetEnv race =
     \<lparr> cleanupClock = fixedClock 5, refreshEnv = exampleRefreshEnv True,
       availableClock = fixedClock 6, raceBefore = race, raceCAS = [], useClock = 7 \<rparr>"


definition examplePool :: ProxyPool where
  "examplePool =
     snd (AddProxy 0 0 ''10.0.0.2'' ''8080''
       (snd (AddProxy 0 0 ''10.0.0.1'' ''8080'' (New (exampleConfig 5 180 3)))))"

definition examplePool3 :: ProxyPool where
  "examplePool3 =
     snd (AddProxy 0 0 ''10.0.0.3'' ''8080''
       (snd (AddProxy 0 0 ''10.0.0.2'' ''8080''
         (snd (AddProxy 0 0 ''10.0.0.1'' ''8080'' (New (exampleConfig 5 180 3)))))))"

section \<open>Entry lifecycle\<close>

lemma sint_succ_below:
  fixes c m :: int64
  assumes "c <s m"
  shows "sint (c + 1) = sint c + 1"
proof -
  have "sint m < 2 ^ 63"
    using sint_lt [of m] by simp
  moreover have "- (2 ^ 63) \<le> sint c"
    using sint_ge [of c] by simp
  moreover have "sint c < sint m"
    using assms by (simp add: word_sless_alt)
  ultimately have "- (2 ^ 63) \<le> sint c + 1 \<and> sint c + 1 < 2 ^ 63"
    by linarith
  then show ?thesis
    by (simp add: sint_word_ariths signed_take_bit_int_eq_self)
qed

lemma IncrementUseCount_at_limit:
  "maxUseCount p \<le>s usedCount p \<Longrightarrow> IncrementUseCount vs now p = (False, p)"
  by (cases vs) simp_all

lemma IncrementUseCount_maxUseCount:
  "maxUseCount (snd (IncrementUseCount vs now p)) = maxUseCount p"
  by (induction vs arbitrary: p) (simp_all add: Let_def)

lemma IncrementUseCount_bounded:
  "usedCount p \<le>s maxUseCount p \<Longrightarrow> \<forall>v\<in>set vs. v \<le>s maxUseCount p \<Longrightarrow>
   usedCount (snd (IncrementUseCount vs now p)) \<le>s maxUseCount p"
proof (induction vs arbitrary: p)
  case Nil
  show ?case
  proof (cases "maxUseCount p \<le>s usedCount p")
    case True
    with Nil show ?thesis by simp
  next
    case False
    then have below: "usedCount p <s maxUseCount p"
      by (simp add: word_sle_eq word_sless_alt)
    from sint_succ_below [OF below] below show ?thesis
      by (simp add: word_sle_eq word_sless_alt)
  qed
next
  case (Cons v vs)
  have "usedCount (snd (IncrementUseCount vs now (p\<lparr>usedCount := v\<rparr>)))
          \<le>s maxUseCount (p\<lparr>usedCount := v\<rparr>)"
    using Cons.prems by (intro Cons.IH) simp_all
  with Cons.prems show ?case by (simp add: Let_def)
qed

lemma IncrementUseCount_success_bound:
  "fst (IncrementUseCount vs now p) \<Longrightarrow>
   usedCount (snd (IncrementUseCount vs now p)) \<le>s maxUseCount p
   \<and> lastUseTime (snd (IncrementUseCount vs now p)) = Some now"
proof (induction vs arbitrary: p)
  case Nil
  show ?case
  proof (cases "maxUseCount p \<le>s usedCount p")
    case True
    with Nil show ?thesis by simp
  next
    case False
    then have below: "usedCount p <s maxUseCount p"
      by (simp add: word_sle_eq word_sless_alt)
    from sint_succ_below [OF below] below show ?thesis
      by (simp add: word_sle_eq word_sless_alt)
  qed
next
  case (Cons v vs)
  show ?case
  proof (cases "maxUseCount p \<le>s usedCount p")
    case True
    with Cons.prems show ?thesis by simp
  next
    case False
    with Cons.prems have "fst (IncrementUseCount vs now (p\<lparr>usedCount := v\<rparr>))"
      by simp
    from Cons.IH [OF this] False show ?thesis by simp
  qed
qed

lemma below_not_limit: "(c :: int64) <s m \<Longrightarrow> \<not> m \<le>s c"
  by (simp add: word_sle_eq word_sless_alt)

lemma IncrementUseCount_retry:
  "usedCount p <s maxUseCount p \<Longrightarrow>
   IncrementUseCount (v # vs) now p = IncrementUseCount vs now (p\<lparr>usedCount := v\<rparr>)"
  using below_not_limit [of "usedCount p" "maxUseCount p"] by simp

lemma IncrementUseCount_all_below:
  "usedCount p <s maxUseCount p \<Longrightarrow> \<forall>v\<in>set vs. v <s maxUseCount p \<Longrightarrow>
   IncrementUseCount vs now p
     = (True, p\<lparr>usedCount := last (usedCount p # vs) + 1, lastUseTime := Some now\<rparr>)"
proof (induction vs arbitrary: p)
  case Nil
  then show ?case using below_not_limit [of "usedCount p" "maxUseCount p"] by simp
next
  case (Cons v vs)
  have "IncrementUseCount vs now (p\<lparr>usedCount := v\<rparr>)
      = (True, (p\<lparr>usedCount := v\<rparr>)\<lparr>usedCount := last (usedCount (p\<lparr>usedCount := v\<rparr>) # vs) + 1,
           lastUseTime := Some now\<rparr>)"
    using Cons.prems by (intro Cons.IH) simp_all
  then show ?case
    using Cons.prems(1) by (simp add: IncrementUseCount_retry del: IncrementUseCount.simps)
qed

lemma IncrementUseCount_reaches_limit:
  "usedCount p <s maxUseCount p \<Longrightarrow> \<forall>v\<in>set us. v <s maxUseCount p \<Longrightarrow>
   maxUseCount p \<le>s w \<Longrightarrow>
   IncrementUseCount (us @ w # rest) now p = (False, p\<lparr>usedCount := w\<rparr>)"
proof (induction us arbitrary: p)
  case Nil
  have "IncrementUseCount rest now (p\<lparr>usedCount := w\<rparr>) = (False, p\<lparr>usedCount := w\<rparr>)"
    using Nil.prems(3) by (intro IncrementUseCount_at_limit) simp
  then show ?case
    using Nil.prems(1) by (simp add: IncrementUseCount_retry del: IncrementUseCount.simps)
next
  case (Cons u us)
  have "IncrementUseCount (us @ w # rest) now (p\<lparr>usedCount := u\<rparr>)
      = (False, (p\<lparr>usedCount := u\<rparr>)\<lparr>usedCount := w\<rparr>)"
    using Cons.prems by (intro Cons.IH) simp_all
  then show ?case
    using Cons.prems(1) by (simp add: IncrementUseCount_retry del: IncrementUseCount.simps)
qed

lemma IncrementUseCount_result:
  "\<exists>c\<in>set (usedCount p # vs).
     IncrementUseCount vs now p =
       (if maxUseCount p \<le>s c then (False, p\<lparr>usedCount := c\<rparr>)
        else (True, p\<lparr>usedCount := c + 1, lastUseTime := Some now\<rparr>))"
proof (induction vs arbitrary: p)
  case Nil
  show ?case by simp
next
  case (Cons v vs)
  show ?case
  proof (cases "maxUseCount p \<le>s usedCount p")
    case True
    then have "IncrementUseCount (v # vs) now p = (False, p\<lparr>usedCount := usedCount p\<rparr>)"
      by simp
    with True show ?thesis by (intro bexI [of _ "usedCount p"]) simp_all
  next
    case False
    obtain c where c: "c \<in> set (v # vs)"
      and r: "IncrementUseCount vs now (p\<lparr>usedCount := v\<rparr>) =
       (if maxUseCount (p\<lparr>usedCount := v\<rparr>) \<le>s c
        then (False, (p\<lparr>usedCount := v\<rparr>)\<lparr>usedCount := c\<rparr>)
        else (True, (p\<lparr>usedCount := v\<rparr>)\<lparr>usedCount := c + 1, lastUseTime := Some now\<rparr>))"
      using Cons.IH [of "p\<lparr>usedCount := v\<rparr>"] by (auto simp del: IncrementUseCount.simps)
    from False r have "IncrementUseCount (v # vs) now p =
       (if maxUseCount p \<le>s c then (False, p\<lparr>usedCount := c\<rparr>)
        else (True, p\<lparr>usedCount := c + 1, lastUseTime := Some now\<rparr>))"
      by simp
    with c show ?thesis by (intro bexI [of _ c]) simp_all
  qed
qed

text \<open>
  C1. For every call, whatever the other goroutines do: the call returns on the first
  load that finds the counter at or above the limit, or after the first swap that
  succeeds. A call that loads a counter at or above the limit returns false and writes
  nothing: the item is as it was, with the counter as the other goroutines left it
  (unchanged when the first load already finds the limit reached). A call whose loads
  all find the counter below the limit returns true, with the counter exactly one above
  the value of its last load (without wrapping) and the clock reading as last-use time;
  with no interference that load is the first, so the counter has advanced by exactly
  one. In either case the result is determined by one loaded value. Hence a call that
  returns true leaves the counter within the limit, and a counter that is within the
  limit stays within it, also when other claimers (which keep within the limit
  themselves) make the swap fail any number of times; the limit itself is never
  written.
\<close>

theorem IncrementUseCount_claims_one_use:
  "(maxUseCount p \<le>s usedCount p \<longrightarrow> IncrementUseCount vs now p = (False, p))
   \<and> (usedCount p <s maxUseCount p \<longrightarrow>
        IncrementUseCount [] now p
          = (True, p\<lparr>usedCount := usedCount p + 1, lastUseTime := Some now\<rparr>)
        \<and> sint (usedCount p + 1) = sint (usedCount p) + 1)
   \<and> (usedCount p <s maxUseCount p \<and> (\<forall>v\<in>set vs. v <s maxUseCount p) \<longrightarrow>
        IncrementUseCount vs now p
          = (True, p\<lparr>usedCount := last (usedCount p # vs) + 1, lastUseTime := Some now\<rparr>)
        \<and> sint (last (usedCount p # vs) + 1) = sint (last (usedCount p # vs)) + 1)
   \<and> (usedCount p <s maxUseCount p \<and> (\<forall>v\<in>set us. v <s maxUseCount p)
        \<and> maxUseCount p \<le>s w \<longrightarrow>
        IncrementUseCount (us @ w # rest) now p = (False, p\<lparr>usedCount := w\<rparr>))
   \<and> (\<exists>c\<in>set (usedCount p # vs).
        IncrementUseCount vs now p =
          (if maxUseCount p \<le>s c then (False, p\<lparr>usedCount := c\<rparr>)
           else (True, p\<lparr>usedCount := c + 1, lastUseTime := Some now\<rparr>))
        \<and> (c <s maxUseCount p \<longrightarrow> sint (c + 1) = sint c + 1))
   \<and> (fst (IncrementUseCount vs now p) \<longrightarrow>
        usedCount (snd (IncrementUseCount vs now p)) \<le>s maxUseCount p
        \<and> lastUseTime (snd (IncrementUseCount vs now p)) = Some now)
   \<and> (usedCount p \<le>s maxUseCount p \<and> (\<forall>v\<in>set vs. v \<le>s maxUseCount p) \<longrightarrow>
        usedCount (snd (IncrementUseCount vs now p)) \<le>s maxUseCount p)
   \<and> maxUseCount (snd (IncrementUseCount vs now p)) = maxUseCount p"
proof (intro conjI impI)
  assume "maxUseCount p \<le>s usedCount p"
  then show "IncrementUseCount vs now p = (False, p)"
    by (rule IncrementUseCount_at_limit)
next
  assume below: "usedCount p <s maxUseCount p"
  then show "IncrementUseCount [] now p
      = (True, p\<lparr>usedCount := usedCount p + 1, lastUseTime := Some now\<rparr>)"
    using below_not_limit [OF below] by simp
  from below show "sint (usedCount p + 1) = sint (usedCount p) + 1"
    by (rule sint_succ_below)
next
  assume a: "usedCount p <s maxUseCount p \<and> (\<forall>v\<in>set vs. v <s maxUseCount p)"
  then show "IncrementUseCount vs now p
      = (True, p\<lparr>usedCount := last (usedCount p # vs) + 1, lastUseTime := Some now\<rparr>)"
    by (simp add: IncrementUseCount_all_below del: IncrementUseCount.simps)
  have "last (usedCount p # vs) \<in> set (usedCount p # vs)"
    by (rule last_in_set) simp
  with a have "last (usedCount p # vs) <s maxUseCount p"
    by auto
  then show "sint (last (usedCount p # vs) + 1) = sint (last (usedCount p # vs)) + 1"
    by (rule sint_succ_below)
next
  assume "usedCount p <s maxUseCount p \<and> (\<forall>v\<in>set us. v <s maxUseCount p)
        \<and> maxUseCount p \<le>s w"
  then show "IncrementUseCount (us @ w # rest) now p = (False, p\<lparr>usedCount := w\<rparr>)"
    by (simp add: IncrementUseCount_reaches_limit del: IncrementUseCount.simps)
next
  obtain c where "c \<in> set (usedCount p # vs)"
    and "IncrementUseCount vs now p =
          (if maxUseCount p \<le>s c then (False, p\<lparr>usedCount := c\<rparr>)
           else (True, p\<lparr>usedCount := c + 1, lastUseTime := Some now\<rparr>))"
    using IncrementUseCount_result [of p vs now] by blast
  moreover have "c <s maxUseCount p \<longrightarrow> sint (c + 1) = sint c + 1"
    by (simp add: sint_succ_below)
  ultimately show "\<exists>c\<in>set (usedCount p # vs).
        IncrementUseCount vs now p =
          (if maxUseCount p \<le>s c then (False, p\<lparr>usedCount := c\<rparr>)
           else (True, p\<lparr>usedCount := c + 1, lastUseTime := Some now\<rparr>))
        \<and> (c <s maxUseCount p \<longrightarrow> sint (c + 1) = sint c + 1)"
    by blast
next
  assume ok: "fst (IncrementUseCount vs now p)"
  from IncrementUseCount_success_bound [OF ok]
  show "usedCount (snd (IncrementUseCount vs now p)) \<le>s maxUseCount p"
    and "lastUseTime (snd (IncrementUseCount vs now p)) = Some now"
    by simp_all
next
  assume "usedCount p \<le>s maxUseCount p \<and> (\<forall>v\<in>set vs. v \<le>s maxUseCount p)"
  then show "usedCount (snd (IncrementUseCount vs now p)) \<le>s maxUseCount p"
    by (simp add: IncrementUseCount_bounded)
next
  show "maxUseCount (snd (IncrementUseCount vs now p)) = maxUseCount p"
    by (rule IncrementUseCount_maxUseCount)
qed

theorem IncrementUseCount_claims_one_use_witness:
  "(5 :: int64) \<le>s 5 \<and> (1 :: int64) <s 5 \<and> (2 :: int64) <s 5 \<and> (3 :: int64) <s 5
   \<and> IncrementUseCount [2, 3] 9 (exampleItem 5 5 100) = (False, exampleItem 5 5 100)
   \<and> IncrementUseCount [] 9 (exampleItem 1 5 100)
        = (True, (exampleItem 1 5 100)\<lparr>usedCount := 2, lastUseTime := Some 9\<rparr>)
   \<and> IncrementUseCount [2, 3] 9 (exampleItem 1 5 100)
        = (True, (exampleItem 1 5 100)\<lparr>usedCount := 4, lastUseTime := Some 9\<rparr>)
   \<and> IncrementUseCount ([2] @ 5 # [3]) 9 (exampleItem 1 5 100)
        = (False, (exampleItem 1 5 100)\<lparr>usedCount := 5\<rparr>)
   \<and> usedCount (snd (IncrementUseCount [2, 3] 9 (exampleItem 1 5 100))) \<le>s 5
   \<and> lastUseTime (snd (IncrementUseCount [2, 3] 9 (exampleItem 1 5 100))) = Some 9"
proof -
  have c: "(5 :: int64) \<le>s 5" "(1 :: int64) <s 5" "(2 :: int64) <s 5" "(3 :: int64) <s 5"
    by (simp_all add: word_sle_eq word_sless_alt)
  have f: "usedCount (exampleItem 1 5 100) = 1" "maxUseCount (exampleItem 1 5 100) = 5"
    "usedCount (exampleItem 5 5 100) = 5" "maxUseCount (exampleItem 5 5 100) = 5"
    by (simp_all add: exampleItem_def)
  note at_limit = IncrementUseCount_claims_one_use
    [where p = "exampleItem 5 5 100" and vs = "[2, 3]" and now = 9 and us = "[2]" and w = 5
       and rest = "[3]"]
  note below = IncrementUseCount_claims_one_use
    [where p = "exampleItem 1 5 100" and vs = "[2, 3]" and now = 9 and us = "[2]" and w = 5
       and rest = "[3]"]
  have "IncrementUseCount [2, 3] 9 (exampleItem 5 5 100) = (False, exampleItem 5 5 100)"
    using at_limit c f by simp
  moreover have "IncrementUseCount [] 9 (exampleItem 1 5 100)
        = (True, (exampleItem 1 5 100)\<lparr>usedCount := 2, lastUseTime := Some 9\<rparr>)"
    using below c f by simp
  moreover have r: "IncrementUseCount [2, 3] 9 (exampleItem 1 5 100)
        = (True, (exampleItem 1 5 100)\<lparr>usedCount := 4, lastUseTime := Some 9\<rparr>)"
    using below c f by simp
  moreover have "IncrementUseCount ([2] @ 5 # [3]) 9 (exampleItem 1 5 100)
        = (False, (exampleItem 1 5 100)\<lparr>usedCount := 5\<rparr>)"
    using below c f by simp
  moreover have "usedCount (snd (IncrementUseCount [2, 3] 9 (exampleItem 1 5 100))) \<le>s 5"
    and "lastUseTime (snd (IncrementUseCount [2, 3] 9 (exampleItem 1 5 100))) = Some 9"
    unfolding r by (simp_all add: word_sle_eq)
  ultimately show ?thesis
    using c by blast
qed

lemma seconds_1: "seconds 1 = 1000000000"
  by (simp add: seconds_def)

text \<open>
  C4. \<open>IsAvailable\<close> holds exactly when the clock reading is strictly before the expiry
  and the counter is strictly below the limit. At the expiry instant and after it the
  item is unavailable; strictly before it, with uses remaining, it is available. An
  item created with a lifetime of one second and a positive limit is available exactly
  at the readings less than one second (in nanoseconds) after the reading its expiry
  was computed from.
\<close>

theorem IsAvailable_iff:
  "(IsAvailable now p \<longleftrightarrow> now < expireTime p \<and> usedCount p <s maxUseCount p)
   \<and> (expireTime p \<le> now \<longrightarrow> \<not> IsAvailable now p)
   \<and> (now < expireTime p \<and> usedCount p <s maxUseCount p \<longrightarrow> IsAvailable now p)
   \<and> (0 <s limit \<longrightarrow>
        (IsAvailable now (NewProxyItemWithConfig t t' ip port limit 1) \<longleftrightarrow> now < t + 1000000000))"
  by (auto simp add: IsAvailable_def NewProxyItemWithConfig_def seconds_1)

theorem IsAvailable_iff_witness:
  "(100 :: int) \<le> 100 \<and> (99 :: int) < 100 \<and> (1 :: int64) <s 5 \<and> (0 :: int64) <s 5
   \<and> \<not> IsAvailable 100 (exampleItem 1 5 100)
   \<and> IsAvailable 99 (exampleItem 1 5 100)
   \<and> IsAvailable 999999999 (NewProxyItemWithConfig 0 0 ''10.0.0.1'' ''8080'' 5 1)
   \<and> \<not> IsAvailable 1000000000 (NewProxyItemWithConfig 0 0 ''10.0.0.1'' ''8080'' 5 1)"
  using IsAvailable_iff [of 100 "exampleItem 1 5 100" 5 0 0 "''10.0.0.1''" "''8080''"]
    IsAvailable_iff [of 99 "exampleItem 1 5 100" 5 0 0 "''10.0.0.1''" "''8080''"]
    IsAvailable_iff [of 999999999 "exampleItem 1 5 100" 5 0 0 "''10.0.0.1''" "''8080''"]
    IsAvailable_iff [of 1000000000 "exampleItem 1 5 100" 5 0 0 "''10.0.0.1''" "''8080''"]
  by (simp add: exampleItem_def word_sless_alt)

section \<open>Statistics\<close>

lemma count_slots_Nil: "count_slots P [] = 0"
  by (simp add: count_slots_def)

lemma count_slots_Cons:
  "count_slots P (x # xs) = (if P 0 x then 1 else 0) + count_slots (\<lambda>i. P (Suc i)) xs"
proof -
  have "[0..<length (x # xs)] = 0 # map Suc [0..<length xs]"
    by (simp add: upt_conv_Cons map_Suc_upt del: upt_Suc)
  then show ?thesis
    by (simp add: count_slots_def filter_map o_def del: upt_Suc)
qed

lemma statsLoop_counts:
  "statsLoop clk k ps s =
     s\<lparr> Available := Available s + count_slots (\<lambda>i. IsAvailable (fst (clk (k + i)))) ps,
        Expired := Expired s + count_slots (\<lambda>i. IsExpired (snd (clk (k + i)))) ps,
        MaxUsed := MaxUsed s + count_slots (\<lambda>i. IsMaxUsed) ps \<rparr>"
proof (induction ps arbitrary: k s)
  case Nil
  show ?case by (simp add: count_slots_Nil)
next
  case (Cons x xs)
  show ?case
    by (simp add: Cons.IH count_slots_Cons Let_def)
qed

lemma GetStats_counts:
  "GetStats clk p =
     \<lparr> Total = int (length (proxies p)),
       Available = count_slots (\<lambda>i. IsAvailable (fst (clk i))) (proxies p),
       Expired = count_slots (\<lambda>i. IsExpired (snd (clk i))) (proxies p),
       MaxUsed = count_slots (\<lambda>i. IsMaxUsed) (proxies p) \<rparr>"
  by (simp add: GetStats_def statsLoop_counts)


text \<open>
  Where C10 as stated fails: an item exactly at its expiry instant that has used up its
  limit is counted in \<open>MaxUsed\<close>.
\<close>

theorem GetStats_exhausted_at_expiry_instant:
  "expireTime (exampleItem 5 5 100) = 100
   \<and> GetStats (fixedClock2 100) ((New (exampleConfig 5 180 3))\<lparr>proxies := [exampleItem 5 5 100]\<rparr>)
       = \<lparr> Total = 1, Available = 0, Expired = 0, MaxUsed = 1 \<rparr>"
  by (simp add: GetStats_counts count_slots_def exampleItem_def IsAvailable_def IsExpired_def
      IsMaxUsed_def word_sle_eq word_sless_alt fixedClock2_def)

text \<open>
  C10, as amended. At the clock reading equal to its expiry, an item reports neither
  available nor expired. \<open>GetStats\<close> counts, slot by slot, the items that report
  available, expired and at their limit, so the three counts do not partition the pool:
  an item exactly at its expiry instant is counted in \<open>Total\<close>, in neither
  \<open>Available\<close> nor \<open>Expired\<close>, and in \<open>MaxUsed\<close> exactly when it has reached its
  limit (so in none of the three when it has uses remaining); an item past its expiry
  and at its limit is counted in both \<open>Expired\<close> and \<open>MaxUsed\<close>.
\<close>

theorem GetStats_does_not_partition:
  "\<not> IsAvailable (expireTime x) x \<and> \<not> IsExpired (expireTime x) x
   \<and> GetStats clk p =
       \<lparr> Total = int (length (proxies p)),
         Available = count_slots (\<lambda>i. IsAvailable (fst (clk i))) (proxies p),
         Expired = count_slots (\<lambda>i. IsExpired (snd (clk i))) (proxies p),
         MaxUsed = count_slots (\<lambda>i. IsMaxUsed) (proxies p) \<rparr>
   \<and> GetStats (\<lambda>i. (expireTime x, expireTime x)) (p\<lparr>proxies := [x]\<rparr>)
       = \<lparr> Total = 1, Available = 0, Expired = 0, MaxUsed = (if IsMaxUsed x then 1 else 0) \<rparr>
   \<and> (usedCount x <s maxUseCount x \<longrightarrow>
        GetStats (\<lambda>i. (expireTime x, expireTime x)) (p\<lparr>proxies := [x]\<rparr>)
          = \<lparr> Total = 1, Available = 0, Expired = 0, MaxUsed = 0 \<rparr>)
   \<and> (expireTime x < now \<and> expireTime x < now' \<and> IsMaxUsed x \<longrightarrow>
        GetStats (\<lambda>i. (now, now')) (p\<lparr>proxies := [x]\<rparr>)
          = \<lparr> Total = 1, Available = 0, Expired = 1, MaxUsed = 1 \<rparr>)"
proof (intro conjI impI)
  show "\<not> IsAvailable (expireTime x) x" and "\<not> IsExpired (expireTime x) x"
    by (simp_all add: IsAvailable_def IsExpired_def)
  show "GetStats clk p =
       \<lparr> Total = int (length (proxies p)),
         Available = count_slots (\<lambda>i. IsAvailable (fst (clk i))) (proxies p),
         Expired = count_slots (\<lambda>i. IsExpired (snd (clk i))) (proxies p),
         MaxUsed = count_slots (\<lambda>i. IsMaxUsed) (proxies p) \<rparr>"
    by (rule GetStats_counts)
  show "GetStats (\<lambda>i. (expireTime x, expireTime x)) (p\<lparr>proxies := [x]\<rparr>)
       = \<lparr> Total = 1, Available = 0, Expired = 0, MaxUsed = (if IsMaxUsed x then 1 else 0) \<rparr>"
    by (simp add: GetStats_counts count_slots_def IsAvailable_def IsExpired_def)
next
  assume "usedCount x <s maxUseCount x"
  then have "\<not> IsMaxUsed x"
    by (simp add: IsMaxUsed_def word_sle_eq word_sless_alt)
  then show "GetStats (\<lambda>i. (expireTime x, expireTime x)) (p\<lparr>proxies := [x]\<rparr>)
          = \<lparr> Total = 1, Available = 0, Expired = 0, MaxUsed = 0 \<rparr>"
    by (simp add: GetStats_counts count_slots_def IsAvailable_def IsExpired_def)
next
  assume "expireTime x < now \<and> expireTime x < now' \<and> IsMaxUsed x"
  then show "GetStats (\<lambda>i. (now, now')) (p\<lparr>proxies := [x]\<rparr>)
          = \<lparr> Total = 1, Available = 0, Expired = 1, MaxUsed = 1 \<rparr>"
    by (simp add: GetStats_counts count_slots_def IsAvailable_def IsExpired_def)
qed

theorem GetStats_does_not_partition_witness:
  "(1 :: int64) <s 5 \<and> (100 :: int) < 101 \<and> IsMaxUsed (exampleItem 5 5 100)
   \<and> GetStats (fixedClock2 100) ((New (exampleConfig 5 180 3))\<lparr>proxies := [exampleItem 1 5 100]\<rparr>)
       = \<lparr> Total = 1, Available = 0, Expired = 0, MaxUsed = 0 \<rparr>
   \<and> GetStats (fixedClock2 101) ((New (exampleConfig 5 180 3))\<lparr>proxies := [exampleItem 5 5 100]\<rparr>)
       = \<lparr> Total = 1, Available = 0, Expired = 1, MaxUsed = 1 \<rparr>"
  using GetStats_does_not_partition [of "exampleItem 1 5 100" "fixedClock2 100" "New (exampleConfig 5 180 3)" 101 101]
    GetStats_does_not_partition [of "exampleItem 5 5 100" "fixedClock2 100" "New (exampleConfig 5 180 3)" 101 101]
  by (simp add: exampleItem_def IsMaxUsed_def word_sle_eq word_sless_alt fixedClock2_def)

section \<open>Configuration\<close>




section \<open>The cases of Refresh and Get, and the identities of the entries\<close>

lemma map_nth_filter_upt: "map (\<lambda>i. xs ! i) (filter P [0..<length xs]) = nths xs {i. P i}"
proof (induction xs rule: rev_induct)
  case Nil
  show ?case by simp
next
  case (snoc x xs)
  have "map (\<lambda>i. (xs @ [x]) ! i) (filter P [0..<length xs])
        = map (\<lambda>i. xs ! i) (filter P [0..<length xs])"
    by (rule map_cong) (auto simp: nth_append)
  with snoc show ?case
    by (simp add: nths_append)
qed

lemma availableSlots_bound: "i \<in> set (availableSlots clk ps) \<Longrightarrow> i < length ps"
  by (simp add: availableSlots_def)

lemma proxies_cleanupUnsafe:
  "proxies (cleanupUnsafe clk p) = nths (proxies p) {i. IsAvailable (clk i) (proxies p ! i)}"
  by (simp add: cleanupUnsafe_def availableSlots_def map_nth_filter_upt)

lemma keys_cleanupUnsafe: "distinct (keys p) \<Longrightarrow> distinct (keys (cleanupUnsafe clk p))"
  by (simp add: keys_def proxies_cleanupUnsafe nths_map [symmetric])

lemma String_New [simp]: "String (NewProxyItemWithConfig t t' ip port m e) = ip @ '':'' @ port"
  by (simp add: String_def NewProxyItemWithConfig_def)

lemma keys_AddProxy: "distinct (keys p) \<Longrightarrow> distinct (keys (snd (AddProxy t t' ip port p)))"
  by (auto simp: keys_def AddProxy_def Let_def list_ex_iff)

lemma keys_addProxies:
  "distinct (keys p) \<Longrightarrow> distinct (keys (snd (addProxies clk i addrs n p)))"
proof (induction addrs arbitrary: i n p)
  case Nil
  then show ?case by simp
next
  case (Cons a addrs)
  obtain added p' where
    step: "AddProxy (fst (clk i)) (snd (clk i)) (AddrIP a) (AddrPort a) p = (added, p')"
    by (cases "AddProxy (fst (clk i)) (snd (clk i)) (AddrIP a) (AddrPort a) p")
  have "distinct (keys p')"
    using keys_AddProxy [OF Cons.prems, of "fst (clk i)" "snd (clk i)" "AddrIP a" "AddrPort a"]
    by (simp add: step)
  then have "distinct (keys (snd (addProxies clk (Suc i) addrs
      (if added then n + 1 else n) p')))"
    by (rule Cons.IH)
  then show ?case by (simp add: step)
qed

lemma Refresh_unconfigured:
  "apiURL p = [] \<Longrightarrow> fetchFunc p = None \<Longrightarrow> Refresh renv p = (Some ErrAPIURLEmpty, p, [])"
  by (simp add: Refresh_def)

lemma Refresh_busy:
  "apiURL p \<noteq> [] \<or> fetchFunc p \<noteq> None \<Longrightarrow> \<not> tryLock renv \<Longrightarrow>
   Refresh renv p = (None, p, [])"
  by (auto simp add: Refresh_def Option.is_none_def)

lemma Refresh_no_fetchFunc:
  "apiURL p \<noteq> [] \<Longrightarrow> fetchFunc p = None \<Longrightarrow> tryLock renv \<Longrightarrow>
   Refresh renv p = (Some ErrFetchFuncUnset, p,
     if onRefresh p then [OnRefreshCalled 0 (Some ErrFetchFuncUnset)] else [])"
  by (simp add: Refresh_def)

lemma Refresh_fetch_error:
  "fetchFunc p = Some fn \<Longrightarrow> tryLock renv \<Longrightarrow> snd (fn (apiURL p)) = Some e \<Longrightarrow>
   Refresh renv p = (Some e, p,
     FetchCalled (apiURL p) # (if onRefresh p then [OnRefreshCalled 0 (Some e)] else []))"
  by (simp add: Refresh_def)

lemma Refresh_fetch_ok:
  "fetchFunc p = Some fn \<Longrightarrow> tryLock renv \<Longrightarrow> snd (fn (apiURL p)) = None \<Longrightarrow>
   Refresh renv p =
     (None, snd (addProxies (addClock renv) 0 (fst (fn (apiURL p))) 0 p),
      FetchCalled (apiURL p) #
        (if onRefresh p
         then [OnRefreshCalled (fst (addProxies (addClock renv) 0 (fst (fn (apiURL p))) 0 p)) None]
         else []))"
  by (simp add: Refresh_def split: prod.splits)

lemma Refresh_pool_cases:
  "fst (snd (Refresh renv p)) = p \<or>
   (\<exists>batch. fst (snd (Refresh renv p)) = snd (addProxies (addClock renv) 0 batch 0 p))"
proof (cases "fetchFunc p")
  case None
  then show ?thesis
    by (cases "apiURL p = []"; cases "tryLock renv")
      (simp_all add: Refresh_unconfigured Refresh_busy Refresh_no_fetchFunc)
next
  case (Some fn)
  then show ?thesis
    by (cases "tryLock renv"; cases "snd (fn (apiURL p))")
      (auto simp add: Refresh_busy Refresh_fetch_error Refresh_fetch_ok)
qed

lemma keys_Refresh: "distinct (keys p) \<Longrightarrow> distinct (keys (fst (snd (Refresh renv p))))"
  using Refresh_pool_cases [of renv p] keys_addProxies [of p]
  by auto

lemma IncrementUseCount_String: "String (snd (IncrementUseCount vs now x)) = String x"
  by (induction vs arbitrary: x) (simp_all add: Let_def String_def)

lemma set_removeFirst: "set (snd (removeFirst key ps)) \<subseteq> set ps"
  by (induction ps) (auto simp: Let_def split: prod.splits)

lemma keys_removeFirst:
  "distinct (map String ps) \<Longrightarrow> distinct (map String (snd (removeFirst key ps)))"
proof (induction ps)
  case Nil
  show ?case by simp
next
  case (Cons x ps)
  have "String x \<notin> String ` set (snd (removeFirst key ps))"
    using Cons.prems set_removeFirst [of key ps] by auto
  with Cons show ?case
    by (auto simp: Let_def split: prod.splits)
qed

lemma keys_RemoveByString: "distinct (keys p) \<Longrightarrow> distinct (keys (snd (RemoveByString key p)))"
  using keys_removeFirst [of "proxies p" key]
  by (cases "removeFirst key (proxies p)") (simp add: keys_def RemoveByString_def)

lemma Get_replenish_keys: "distinct (keys p) \<Longrightarrow> distinct (keys (fst (Get_replenish env p)))"
proof -
  assume d: "distinct (keys p)"
  let ?p = "cleanupUnsafe (cleanupClock env) p"
  have c: "distinct (keys ?p)"
    using d by (rule keys_cleanupUnsafe)
  have "fst (Get_replenish env p) = ?p \<or>
        fst (Get_replenish env p) = fst (snd (Refresh (refreshEnv env) ?p))"
    by (simp add: Get_replenish_def Let_def case_prod_beta)
  with c keys_Refresh [OF c, of "refreshEnv env"] show ?thesis
    by auto
qed

lemma map_update_same:
  "i < length xs \<Longrightarrow> f y = f (xs ! i) \<Longrightarrow> map f (xs[i := y]) = map f xs"
  by (simp add: map_update list_update_same_conv)

lemma String_usedCount_update [simp]: "String (x\<lparr>usedCount := v\<rparr>) = String x"
  by (simp add: String_def)

lemma smod_index_bound:
  assumes "0 < n" "0 \<le> k smod int n"
  shows "nat (k smod int n) < n"
  using smod_int_range [of "int n" k] assms by auto

lemma Get_select_empty:
  "availableSlots (availableClock env) (proxies p) = [] \<Longrightarrow>
   Get_select env (p, evs) = (Error ErrNoAvailableProxy, p, evs)"
  by (simp add: Get_select_def)

lemma Get_select_panic:
  "availableSlots (availableClock env) (proxies p) \<noteq> [] \<Longrightarrow>
   sint (roundRobinIdx p) smod int (length (availableSlots (availableClock env) (proxies p))) < 0 \<Longrightarrow>
   Get_select env (p, evs) =
     (PanicIndexOutOfRange, p\<lparr>roundRobinIdx := roundRobinIdx p + 1\<rparr>, evs)"
  by (simp add: Get_select_def Let_def)

lemma Get_select_claim:
  "availableSlots (availableClock env) (proxies p) \<noteq> [] \<Longrightarrow>
   0 \<le> sint (roundRobinIdx p) smod int (length (availableSlots (availableClock env) (proxies p))) \<Longrightarrow>
   Get_select env (p, evs) =
     (if fst (claimSelected env p) then Proxy (snd (claimSelected env p)) else Error ErrNoAvailableProxy,
      p\<lparr>roundRobinIdx := roundRobinIdx p + 1,
        proxies := (proxies p)[selectedSlot env p := snd (claimSelected env p)]\<rparr>,
      evs @ (if fst (claimSelected env p) \<and> onProxyGet p then [OnProxyGetCalled (snd (claimSelected env p))] else []))"
  by (simp add: Get_select_def Let_def claimSelected_def selectedSlot_def case_prod_beta
      cong: option.case_cong)

lemma selectedSlot_bound:
  assumes "availableSlots (availableClock env) (proxies p) \<noteq> []"
    and "0 \<le> sint (roundRobinIdx p) smod int (length (availableSlots (availableClock env) (proxies p)))"
  shows "selectedSlot env p < length (proxies p)"
proof -
  let ?av = "availableSlots (availableClock env) (proxies p)"
  have "nat (sint (roundRobinIdx p) smod int (length ?av)) < length ?av"
    using assms by (intro smod_index_bound) auto
  then have "selectedSlot env p \<in> set ?av"
    by (simp add: selectedSlot_def)
  then show ?thesis
    by (rule availableSlots_bound)
qed

lemma claimSelected_String: "String (snd (claimSelected env p)) = String (proxies p ! selectedSlot env p)"
  by (simp add: claimSelected_def IncrementUseCount_String split: option.splits)

lemma Get_select_keys:
  assumes "distinct (keys p)"
  shows "distinct (keys (fst (snd (Get_select env (p, evs)))))"
proof -
  let ?av = "availableSlots (availableClock env) (proxies p)"
  let ?idx = "sint (roundRobinIdx p) smod int (length ?av)"
  consider (empty) "?av = []" | (panic) "?av \<noteq> []" "?idx < 0" | (claim) "?av \<noteq> []" "0 \<le> ?idx"
    by fastforce
  then show ?thesis
  proof cases
    case empty
    with assms show ?thesis by (simp add: Get_select_empty)
  next
    case panic
    with assms show ?thesis by (simp add: Get_select_panic keys_def)
  next
    case claim
    have "map String ((proxies p)[selectedSlot env p := snd (claimSelected env p)])
          = map String (proxies p)"
      using selectedSlot_bound [OF claim] claimSelected_String by (rule map_update_same)
    with assms show ?thesis
      by (simp add: Get_select_claim [OF claim] keys_def)
  qed
qed

lemma keys_Get:
  assumes "distinct (keys p)"
  shows "distinct (keys (fst (snd (Get env p))))"
proof -
  obtain p' evs where r: "Get_replenish env p = (p', evs)"
    by (cases "Get_replenish env p")
  with Get_replenish_keys [OF assms, of env] have "distinct (keys p')"
    by simp
  then have "distinct (keys (fst (snd (Get_select env (p', evs)))))"
    by (rule Get_select_keys)
  with r show ?thesis by (simp add: Get_def)
qed

lemma reachable_keys: "reachable p \<Longrightarrow> distinct (keys p)"
proof (induction rule: reachable.induct)
  case (reach_New cfg)
  show ?case by (simp add: keys_def New_def Let_def)
next
  case (reach_SetAPIURL p url)
  then show ?case by (simp add: keys_def SetAPIURL_def)
next
  case (reach_SetMaxUseCount p n)
  then show ?case by (simp add: keys_def SetMaxUseCount_def)
next
  case (reach_SetExpireSeconds p n)
  then show ?case by (simp add: keys_def SetExpireSeconds_def)
next
  case (reach_SetMinPoolSize p n)
  then show ?case by (simp add: keys_def SetMinPoolSize_def)
next
  case (reach_SetFetchFunc p fn)
  then show ?case by (simp add: keys_def SetFetchFunc_def)
next
  case (reach_SetOnProxyGet p b)
  then show ?case by (simp add: keys_def SetOnProxyGet_def)
next
  case (reach_SetOnRefresh p b)
  then show ?case by (simp add: keys_def SetOnRefresh_def)
next
  case (reach_AddProxy p t t' ip port)
  then show ?case by (simp add: keys_AddProxy)
next
  case (reach_Refresh p renv)
  then show ?case by (simp add: keys_Refresh)
next
  case (reach_Get p env)
  then show ?case by (simp add: keys_Get)
next
  case (reach_Cleanup p clk)
  then show ?case by (simp add: Cleanup_def Let_def keys_cleanupUnsafe)
next
  case (reach_Clear p)
  show ?case by (simp add: keys_def Clear_def)
next
  case (reach_Remove p ip port)
  then show ?case by (simp add: Remove_def keys_RemoveByString)
next
  case (reach_RemoveByString p key)
  then show ?case by (simp add: keys_RemoveByString)
next
  case (reach_item p i x)
  then have "String x = String (proxies p ! i)"
    by (simp add: String_def)
  with reach_item have "map String ((proxies p)[i := x]) = map String (proxies p)"
    by (intro map_update_same)
  with reach_item show ?case
    by (simp add: keys_def)
qed

lemma keys_pairs:
  assumes "distinct (map String ps)"
  shows "distinct (map (\<lambda>x. (IP x, Port x)) ps)"
proof -
  have "map String ps = map (\<lambda>(ip, port). ip @ '':'' @ port) (map (\<lambda>x. (IP x, Port x)) ps)"
    by (simp add: String_def)
  with assms have "distinct (map (\<lambda>(ip, port). ip @ '':'' @ port) (map (\<lambda>x. (IP x, Port x)) ps))"
    by simp
  then show ?thesis
    by (simp only: distinct_map)
qed

lemma New_fields:
  "proxies (New cfg) = []"
  "roundRobinIdx (New cfg) = 0"
  "apiURL (New cfg) = APIURL cfg"
  "fetchFunc (New cfg) = FetchFunc cfg"
  "onProxyGet (New cfg) = OnProxyGet cfg"
  "onRefresh (New cfg) = OnRefresh cfg"
  by (simp_all add: New_def Let_def)

lemma New_exampleConfig:
  "maxUseCountDefault (New (exampleConfig 5 180 3)) = 5"
  "expireSeconds (New (exampleConfig 5 180 3)) = 180"
  "minPoolSize (New (exampleConfig 5 180 3)) = 3"
  "apiURL (New (exampleConfig 5 180 3)) = ''http://supplier/get''"
  "fetchFunc (New (exampleConfig 5 180 3)) = None"
  "onProxyGet (New (exampleConfig 5 180 3))"
  "onRefresh (New (exampleConfig 5 180 3))"
  by (simp_all add: New_def Let_def exampleConfig_def word_sle_eq)

lemma AddProxy_present:
  "\<exists>x\<in>set (proxies p). String x = ip @ '':'' @ port \<Longrightarrow> AddProxy t t' ip port p = (False, p)"
  by (simp add: AddProxy_def list_ex_iff)

lemma AddProxy_absent:
  "\<not> (\<exists>x\<in>set (proxies p). String x = ip @ '':'' @ port) \<Longrightarrow>
   AddProxy t t' ip port p =
     (True, p\<lparr>proxies := proxies p @
        [NewProxyItemWithConfig t t' ip port (maxUseCountDefault p) (expireSeconds p)]\<rparr>)"
  by (simp add: AddProxy_def list_ex_iff)

lemma AddProxy_again:
  "AddProxy u u' ip port (snd (AddProxy t t' ip port p)) = (False, snd (AddProxy t t' ip port p))"
proof (cases "\<exists>x\<in>set (proxies p). String x = ip @ '':'' @ port")
  case True
  then show ?thesis by (simp add: AddProxy_present)
next
  case False
  then show ?thesis by (simp add: AddProxy_absent AddProxy_present)
qed

text \<open>
  C5. \<open>AddProxy\<close> returns false and leaves the pool as it is when an item with the
  identity \<open>ip:port\<close> is present, and otherwise appends exactly one item built from
  the pool's defaults and returns true. Hence in every pool a program can build no two
  items share their identity, nor their pair of host and port; a second \<open>AddProxy\<close>
  with the same host and port returns false and changes nothing, so that two calls on
  an empty pool leave one item.
\<close>

theorem AddProxy_deduplicates:
  "((\<exists>x\<in>set (proxies p). String x = ip @ '':'' @ port) \<longrightarrow>
      AddProxy t t' ip port p = (False, p))
   \<and> (\<not> (\<exists>x\<in>set (proxies p). String x = ip @ '':'' @ port) \<longrightarrow>
      AddProxy t t' ip port p =
        (True, p\<lparr>proxies := proxies p @
           [NewProxyItemWithConfig t t' ip port (maxUseCountDefault p) (expireSeconds p)]\<rparr>))
   \<and> (reachable p \<longrightarrow>
        distinct (keys p) \<and> distinct (map (\<lambda>x. (IP x, Port x)) (proxies p)))
   \<and> AddProxy u u' ip port (snd (AddProxy t t' ip port p))
        = (False, snd (AddProxy t t' ip port p))
   \<and> (proxies p = [] \<longrightarrow>
        fst (AddProxy t t' ip port p)
        \<and> length (proxies (snd (AddProxy u u' ip port (snd (AddProxy t t' ip port p))))) = 1)"
proof (intro conjI impI)
  assume "reachable p"
  then show "distinct (keys p)" by (rule reachable_keys)
  then show "distinct (map (\<lambda>x. (IP x, Port x)) (proxies p))"
    unfolding keys_def by (rule keys_pairs)
next
  assume "proxies p = []"
  then show "fst (AddProxy t t' ip port p)"
    and "length (proxies (snd (AddProxy u u' ip port (snd (AddProxy t t' ip port p))))) = 1"
    unfolding AddProxy_again by (simp_all add: AddProxy_absent)
qed (simp_all add: AddProxy_present AddProxy_absent AddProxy_again)

theorem AddProxy_deduplicates_witness:
  "reachable (snd (AddProxy 7 8 ''10.0.0.1'' ''8080'' (New (exampleConfig 5 180 3))))
   \<and> proxies (New (exampleConfig 5 180 3)) = []
   \<and> AddProxy 7 8 ''10.0.0.1'' ''8080'' (New (exampleConfig 5 180 3))
       = (True, (New (exampleConfig 5 180 3))\<lparr>proxies :=
            [NewProxyItemWithConfig 7 8 ''10.0.0.1'' ''8080'' 5 180]\<rparr>)
   \<and> AddProxy 9 9 ''10.0.0.1'' ''8080'' (snd (AddProxy 7 8 ''10.0.0.1'' ''8080'' (New (exampleConfig 5 180 3))))
       = (False, snd (AddProxy 7 8 ''10.0.0.1'' ''8080'' (New (exampleConfig 5 180 3))))
   \<and> length (proxies (snd (AddProxy 9 9 ''10.0.0.1'' ''8080''
        (snd (AddProxy 7 8 ''10.0.0.1'' ''8080'' (New (exampleConfig 5 180 3))))))) = 1
   \<and> distinct (keys (snd (AddProxy 7 8 ''10.0.0.1'' ''8080'' (New (exampleConfig 5 180 3)))))"
proof -
  let ?p = "New (exampleConfig 5 180 3)"
  let ?q = "snd (AddProxy 7 8 ''10.0.0.1'' ''8080'' ?p)"
  note first = AddProxy_deduplicates [of ?p "''10.0.0.1''" "''8080''" 7 8 9 9]
  note second = AddProxy_deduplicates [of ?q "''10.0.0.1''" "''8080''" 9 9 9 9]
  have r: "reachable ?q"
    by (rule reach_AddProxy [OF reach_New])
  have e: "proxies ?p = []"
    by (rule New_fields)
  have c: "maxUseCountDefault ?p = 5" "expireSeconds ?p = 180"
    by (rule New_exampleConfig)+
  have "AddProxy 7 8 ''10.0.0.1'' ''8080'' ?p
       = (True, ?p\<lparr>proxies := [NewProxyItemWithConfig 7 8 ''10.0.0.1'' ''8080'' 5 180]\<rparr>)"
    using first e c by simp
  moreover have "AddProxy 9 9 ''10.0.0.1'' ''8080'' ?q = (False, ?q)"
    using first by blast
  moreover have "length (proxies (snd (AddProxy 9 9 ''10.0.0.1'' ''8080'' ?q))) = 1"
    using first e by blast
  moreover have "distinct (keys ?q)"
    using second r by blast
  ultimately show ?thesis
    using r e by blast
qed

section \<open>Replenishment\<close>

lemma length_AddProxy:
  "int (length (proxies (snd (AddProxy t t' ip port p))))
     = int (length (proxies p)) + (if fst (AddProxy t t' ip port p) then 1 else 0)"
  by (simp add: AddProxy_def Let_def)

lemma addProxies_count:
  "fst (addProxies clk i addrs n p)
     = n + int (length (proxies (snd (addProxies clk i addrs n p)))) - int (length (proxies p))"
proof (induction addrs arbitrary: i n p)
  case Nil
  show ?case by simp
next
  case (Cons a addrs)
  obtain added p' where
    step: "AddProxy (fst (clk i)) (snd (clk i)) (AddrIP a) (AddrPort a) p = (added, p')"
    by (cases "AddProxy (fst (clk i)) (snd (clk i)) (AddrIP a) (AddrPort a) p")
  have len: "int (length (proxies p')) = int (length (proxies p)) + (if added then 1 else 0)"
    using length_AddProxy [of "fst (clk i)" "snd (clk i)" "AddrIP a" "AddrPort a" p]
    by (simp add: step)
  show ?case
    using Cons.IH [of "Suc i" "if added then n + 1 else n" p'] len
    by (simp add: step)
qed

lemma addProxies_grows:
  "length (proxies p) \<le> length (proxies (snd (addProxies clk i addrs n p)))"
proof (induction addrs arbitrary: i n p)
  case Nil
  show ?case by simp
next
  case (Cons a addrs)
  obtain added p' where
    step: "AddProxy (fst (clk i)) (snd (clk i)) (AddrIP a) (AddrPort a) p = (added, p')"
    by (cases "AddProxy (fst (clk i)) (snd (clk i)) (AddrIP a) (AddrPort a) p")
  have "length (proxies p) \<le> length (proxies p')"
    using length_AddProxy [of "fst (clk i)" "snd (clk i)" "AddrIP a" "AddrPort a" p]
    by (simp add: step split: if_splits)
  also have "\<dots> \<le> length (proxies (snd (addProxies clk (Suc i) addrs
      (if added then n + 1 else n) p')))"
    by (rule Cons.IH)
  finally show ?case by (simp add: step)
qed

text \<open>
  Where C6 as stated fails: a pool whose supplier function was taken away while a
  \<open>Refresh\<close> is in flight, and which has no source identifier. The concurrent call
  returns \<open>ErrAPIURLEmpty\<close>, not nil, since the configuration check comes before the
  lock attempt.
\<close>

theorem Refresh_busy_unconfigured:
  "\<not> tryLock (exampleRefreshEnv False)
   \<and> fst (Refresh (exampleRefreshEnv False)
        (SetFetchFunc None (New ((exampleConfig 5 180 3)\<lparr>APIURL := [], FetchFunc := Some exampleFetch\<rparr>))))
      = Some ErrAPIURLEmpty"
  by (simp add: exampleRefreshEnv_def Refresh_unconfigured SetFetchFunc_def New_fields)

text \<open>
  C6, as amended. When another \<open>Refresh\<close> holds the lock, a call returns at once, with
  the pool unchanged and no event (no fetch, no insertion, no callback); its result is
  nil when the pool has a source identifier or a supplier function, and
  \<open>ErrAPIURLEmpty\<close> when it has neither. When the supplier function returns an error,
  \<open>Refresh\<close> passes it to the on-refresh callback (if one is set) with count 0 and
  returns it, and the pool is unchanged.
\<close>

theorem Refresh_skip_or_fetch_error:
  "(\<not> tryLock renv \<longrightarrow>
      Refresh renv p =
        (if apiURL p = [] \<and> fetchFunc p = None then Some ErrAPIURLEmpty else None, p, []))
   \<and> (tryLock renv \<and> fetchFunc p = Some fn \<and> snd (fn (apiURL p)) = Some e \<longrightarrow>
      Refresh renv p =
        (Some e, p,
         FetchCalled (apiURL p) # (if onRefresh p then [OnRefreshCalled 0 (Some e)] else [])))"
proof (intro conjI impI)
  assume "\<not> tryLock renv"
  then show "Refresh renv p =
        (if apiURL p = [] \<and> fetchFunc p = None then Some ErrAPIURLEmpty else None, p, [])"
    by (cases "apiURL p = [] \<and> fetchFunc p = None")
      (simp add: Refresh_unconfigured, simp add: Refresh_busy)
next
  assume "tryLock renv \<and> fetchFunc p = Some fn \<and> snd (fn (apiURL p)) = Some e"
  then show "Refresh renv p =
        (Some e, p,
         FetchCalled (apiURL p) # (if onRefresh p then [OnRefreshCalled 0 (Some e)] else []))"
    by (simp add: Refresh_fetch_error)
qed

theorem Refresh_skip_or_fetch_error_witness:
  "\<not> tryLock (exampleRefreshEnv False) \<and> tryLock (exampleRefreshEnv True)
   \<and> Refresh (exampleRefreshEnv False) (SetFetchFunc (Some failingFetch) (New (exampleConfig 5 180 3)))
       = (None, SetFetchFunc (Some failingFetch) (New (exampleConfig 5 180 3)), [])
   \<and> Refresh (exampleRefreshEnv True) (SetFetchFunc (Some failingFetch) (New (exampleConfig 5 180 3)))
       = (Some (SupplierError ''timeout''),
          SetFetchFunc (Some failingFetch) (New (exampleConfig 5 180 3)),
          [FetchCalled ''http://supplier/get'',
           OnRefreshCalled 0 (Some (SupplierError ''timeout''))])"
  using Refresh_skip_or_fetch_error [of "exampleRefreshEnv False"
      "SetFetchFunc (Some failingFetch) (New (exampleConfig 5 180 3))" failingFetch
      "SupplierError ''timeout''"]
    Refresh_skip_or_fetch_error [of "exampleRefreshEnv True"
      "SetFetchFunc (Some failingFetch) (New (exampleConfig 5 180 3))" failingFetch
      "SupplierError ''timeout''"]
  by (simp add: exampleRefreshEnv_def SetFetchFunc_def failingFetch_def New_exampleConfig)

text \<open>
  Where C7 as stated fails: two calls of \<open>Refresh\<close> on pools with the callback set
  that do not invoke it. One finds the lock held, the other finds neither source
  identifier nor supplier function.
\<close>

theorem Refresh_without_callback:
  "onRefresh (New (exampleConfig 5 180 3))
   \<and> onRefreshCalls (snd (snd (Refresh (exampleRefreshEnv False) (New (exampleConfig 5 180 3))))) = []
   \<and> onRefresh (SetAPIURL [] (New (exampleConfig 5 180 3)))
   \<and> onRefreshCalls (snd (snd (Refresh (exampleRefreshEnv True)
        (SetAPIURL [] (New (exampleConfig 5 180 3)))))) = []"
  by (simp add: New_exampleConfig Refresh_busy Refresh_unconfigured exampleRefreshEnv_def
      SetAPIURL_def)

text \<open>
  C7, as amended. A call of \<open>Refresh\<close> that obtains the lock, on a pool with a source
  identifier or a supplier function and with the callback set, invokes the callback
  exactly once: with the error \<open>Refresh\<close> returns, and with the number of items
  inserted (which is not negative) when that error is nil, and 0 otherwise, in which
  case nothing was inserted. A call that finds the lock held, or neither source
  identifier nor supplier function, or no callback, does not invoke it.
\<close>

theorem Refresh_callback_once:
  "(tryLock renv \<and> (apiURL p \<noteq> [] \<or> fetchFunc p \<noteq> None) \<and> onRefresh p \<longrightarrow>
      onRefreshCalls (snd (snd (Refresh renv p)))
        = [(if fst (Refresh renv p) = None
            then int (length (proxies (fst (snd (Refresh renv p))))) - int (length (proxies p))
            else 0,
            fst (Refresh renv p))]
      \<and> length (proxies p) \<le> length (proxies (fst (snd (Refresh renv p))))
      \<and> (fst (Refresh renv p) \<noteq> None \<longrightarrow> fst (snd (Refresh renv p)) = p))
   \<and> (\<not> tryLock renv \<or> (apiURL p = [] \<and> fetchFunc p = None) \<or> \<not> onRefresh p \<longrightarrow>
      onRefreshCalls (snd (snd (Refresh renv p))) = [])"
proof (cases "fetchFunc p")
  case None
  then show ?thesis
    by (cases "apiURL p = []"; cases "tryLock renv")
      (simp_all add: Refresh_unconfigured Refresh_busy Refresh_no_fetchFunc)
next
  case (Some fn)
  show ?thesis
  proof (cases "tryLock renv")
    case False
    with Some show ?thesis by (simp add: Refresh_busy)
  next
    case True
    show ?thesis
    proof (cases "snd (fn (apiURL p))")
      case None
      with Some True show ?thesis
        using addProxies_count [of "addClock renv" 0 "fst (fn (apiURL p))" 0 p]
          addProxies_grows [of p "addClock renv" 0 "fst (fn (apiURL p))" 0]
        by (simp add: Refresh_fetch_ok)
    next
      case (Some e)
      with \<open>fetchFunc p = Some fn\<close> True show ?thesis
        by (simp add: Refresh_fetch_error)
    qed
  qed
qed

theorem Refresh_callback_once_witness:
  "tryLock (exampleRefreshEnv True)
   \<and> onRefreshCalls (snd (snd (Refresh (exampleRefreshEnv True)
        (SetFetchFunc (Some exampleFetch) (New (exampleConfig 5 180 3)))))) = [(2, None)]
   \<and> onRefreshCalls (snd (snd (Refresh (exampleRefreshEnv True)
        (SetFetchFunc (Some failingFetch) (New (exampleConfig 5 180 3))))))
       = [(0, Some (SupplierError ''timeout''))]
   \<and> onRefreshCalls (snd (snd (Refresh (exampleRefreshEnv False)
        (SetFetchFunc (Some exampleFetch) (New (exampleConfig 5 180 3)))))) = []"
proof -
  let ?ok = "SetFetchFunc (Some exampleFetch) (New (exampleConfig 5 180 3))"
  let ?bad = "SetFetchFunc (Some failingFetch) (New (exampleConfig 5 180 3))"
  have t: "tryLock (exampleRefreshEnv True)" "\<not> tryLock (exampleRefreshEnv False)"
    by (simp_all add: exampleRefreshEnv_def)
  have f: "fetchFunc ?ok = Some exampleFetch" "fetchFunc ?bad = Some failingFetch"
    "onRefresh ?ok" "onRefresh ?bad" "proxies ?ok = []"
    by (simp_all add: SetFetchFunc_def New_exampleConfig New_fields(1))
  have r1: "fst (Refresh (exampleRefreshEnv True) ?ok) = None"
    by (simp add: Refresh_fetch_ok [OF f(1) t(1)] exampleFetch_def)
  have p1: "length (proxies (fst (snd (Refresh (exampleRefreshEnv True) ?ok)))) = 2"
    by (simp add: Refresh_fetch_ok [OF f(1) t(1)] exampleFetch_def AddProxy_def f
        String_def NewProxyItemWithConfig_def)
  have r2: "fst (Refresh (exampleRefreshEnv True) ?bad) = Some (SupplierError ''timeout'')"
    by (simp add: Refresh_fetch_error [OF f(2) t(1)] failingFetch_def)
  from Refresh_callback_once [of "exampleRefreshEnv True" ?ok]
    Refresh_callback_once [of "exampleRefreshEnv True" ?bad]
    Refresh_callback_once [of "exampleRefreshEnv False" ?ok]
  show ?thesis
    using t f r1 p1 r2 by simp
qed

section \<open>Acquisition\<close>





lemma minPoolSize_cleanupUnsafe [simp]: "minPoolSize (cleanupUnsafe clk p) = minPoolSize p"
  by (simp add: cleanupUnsafe_def)





lemma IncrementUseCount_success:
  "usedCount x <s maxUseCount x \<Longrightarrow>
   IncrementUseCount [] now x = (True, x\<lparr>usedCount := usedCount x + 1, lastUseTime := Some now\<rparr>)"
  by (simp add: word_sle_eq word_sless_alt)

lemma IncrementUseCount_failure:
  "\<not> fst (IncrementUseCount vs now x) \<Longrightarrow>
   (snd (IncrementUseCount vs now x))\<lparr>usedCount := u\<rparr> = x\<lparr>usedCount := u\<rparr>"
proof (induction vs arbitrary: x)
  case Nil
  then show ?case by (simp add: Let_def split: if_splits)
next
  case (Cons v vs)
  show ?case
  proof (cases "maxUseCount x \<le>s usedCount x")
    case True
    then show ?thesis by simp
  next
    case False
    with Cons.prems have "\<not> fst (IncrementUseCount vs now (x\<lparr>usedCount := v\<rparr>))"
      by simp
    from Cons.IH [OF this] False show ?thesis by simp
  qed
qed

lemma Get_as_select:
  "Get env p = Get_select env (Get_pool env p, snd (Get_replenish env p))"
  by (simp add: Get_def Get_pool_def)

lemma selectedSlot_available:
  assumes "availableSlots (availableClock env) (proxies q) \<noteq> []"
    and "0 \<le> sint (roundRobinIdx q) smod int (length (availableSlots (availableClock env) (proxies q)))"
  shows "IsAvailable (availableClock env (selectedSlot env q)) (proxies q ! selectedSlot env q)"
proof -
  let ?av = "availableSlots (availableClock env) (proxies q)"
  have "nat (sint (roundRobinIdx q) smod int (length ?av)) < length ?av"
    using assms by (intro smod_index_bound) auto
  then have "selectedSlot env q \<in> set ?av"
    by (simp add: selectedSlot_def)
  then show ?thesis
    by (simp add: availableSlots_def)
qed

text \<open>
  C3. \<open>Get\<close> returns \<open>ErrNoAvailableProxy\<close> exactly when the list of available slots is
  empty, or a slot was selected and the claim on its item failed; it returns no other
  error. With an empty list the pool and the cursor are left as they are. When the
  claim fails, the cursor has advanced by one, no other slot is touched and no second
  claim is made: the item in the selected slot is as it was, up to the counter that the
  other goroutines wrote. Without such interference the claim on a selected item does
  not fail.
\<close>

theorem Get_NoAvailableProxy_iff:
  "(fst (Get env p) = Error ErrNoAvailableProxy \<longleftrightarrow>
      Get_available env p = []
      \<or> (0 \<le> Get_idx env p \<and> \<not> fst (claimSelected env (Get_pool env p))))
   \<and> (\<forall>e. fst (Get env p) = Error e \<longrightarrow> e = ErrNoAvailableProxy)
   \<and> (Get_available env p = [] \<longrightarrow>
        Get env p = (Error ErrNoAvailableProxy, Get_pool env p, snd (Get_replenish env p)))
   \<and> (Get_available env p \<noteq> [] \<and> 0 \<le> Get_idx env p
        \<and> \<not> fst (claimSelected env (Get_pool env p)) \<longrightarrow>
        Get env p =
          (Error ErrNoAvailableProxy,
           (Get_pool env p)\<lparr>roundRobinIdx := roundRobinIdx (Get_pool env p) + 1,
              proxies := (proxies (Get_pool env p))
                [selectedSlot env (Get_pool env p) := snd (claimSelected env (Get_pool env p))]\<rparr>,
           snd (Get_replenish env p))
        \<and> (snd (claimSelected env (Get_pool env p)))
             \<lparr>usedCount := usedCount (proxies (Get_pool env p) ! selectedSlot env (Get_pool env p))\<rparr>
           = proxies (Get_pool env p) ! selectedSlot env (Get_pool env p))
   \<and> (raceBefore env = None \<and> raceCAS env = [] \<and> Get_available env p \<noteq> []
        \<and> 0 \<le> Get_idx env p \<longrightarrow>
        fst (claimSelected env (Get_pool env p)))"
proof -
  let ?q = "Get_pool env p"
  let ?av = "availableSlots (availableClock env) (proxies ?q)"
  let ?idx = "sint (roundRobinIdx ?q) smod int (length ?av)"
  have av: "Get_available env p = ?av" and idx: "Get_idx env p = ?idx"
    by (simp_all add: Get_available_def Get_idx_def)
  have fail: "(snd (claimSelected env ?q))\<lparr>usedCount := u\<rparr> = (proxies ?q ! selectedSlot env ?q)\<lparr>usedCount := u\<rparr>"
    if "\<not> fst (claimSelected env ?q)" for u
    using that IncrementUseCount_failure [of "raceCAS env" "useClock env" _ u]
    by (cases "raceBefore env") (simp_all add: claimSelected_def)
  have quiet: "fst (claimSelected env ?q)"
    if "raceBefore env = None" "raceCAS env = []" "?av \<noteq> []" "0 \<le> ?idx"
  proof -
    have "usedCount (proxies ?q ! selectedSlot env ?q) <s maxUseCount (proxies ?q ! selectedSlot env ?q)"
      using selectedSlot_available [OF that(3,4)] by (simp add: IsAvailable_def)
    then show ?thesis
      using that(1,2)
      by (simp add: claimSelected_def IncrementUseCount_success del: IncrementUseCount.simps)
  qed
  consider (empty) "?av = []" | (panic) "?av \<noteq> []" "?idx < 0" | (claim) "?av \<noteq> []" "0 \<le> ?idx"
    by fastforce
  then show ?thesis
  proof cases
    case empty
    then show ?thesis
      by (simp add: av idx Get_as_select Get_select_empty)
  next
    case panic
    then show ?thesis
      by (simp add: av idx Get_as_select Get_select_panic)
  next
    case claim
    show ?thesis
    proof (cases "fst (claimSelected env ?q)")
      case True
      with claim show ?thesis
        by (simp add: av idx Get_as_select Get_select_claim)
    next
      case False
      with claim quiet fail [OF False, of "usedCount (proxies ?q ! selectedSlot env ?q)"]
      show ?thesis
        by (auto simp add: av idx Get_as_select Get_select_claim)
    qed
  qed
qed

theorem Get_NoAvailableProxy_iff_witness:
  "Get_available (exampleGetEnv None) (New (exampleConfig 5 180 3)) = []
   \<and> fst (Get (exampleGetEnv None) (New (exampleConfig 5 180 3))) = Error ErrNoAvailableProxy
   \<and> Get_available (exampleGetEnv (Some 5)) examplePool = [0, 1]
   \<and> Get_idx (exampleGetEnv (Some 5)) examplePool = 0
   \<and> \<not> fst (claimSelected (exampleGetEnv (Some 5)) (Get_pool (exampleGetEnv (Some 5)) examplePool))
   \<and> fst (Get (exampleGetEnv (Some 5)) examplePool) = Error ErrNoAvailableProxy
   \<and> map usedCount (proxies (fst (snd (Get (exampleGetEnv (Some 5)) examplePool)))) = [5, 0]
   \<and> raceBefore (exampleGetEnv None) = None \<and> raceCAS (exampleGetEnv None) = []
   \<and> fst (claimSelected (exampleGetEnv None) (Get_pool (exampleGetEnv None) examplePool))"
proof -
  have a: "Get_available (exampleGetEnv None) (New (exampleConfig 5 180 3)) = []"
    by code_simp
  have b: "Get_available (exampleGetEnv (Some 5)) examplePool = [0, 1]"
    "Get_idx (exampleGetEnv (Some 5)) examplePool = 0"
    "\<not> fst (claimSelected (exampleGetEnv (Some 5)) (Get_pool (exampleGetEnv (Some 5)) examplePool))"
    by code_simp+
  have c: "raceBefore (exampleGetEnv None) = None" "raceCAS (exampleGetEnv None) = []"
    "Get_available (exampleGetEnv None) examplePool \<noteq> []"
    "0 \<le> Get_idx (exampleGetEnv None) examplePool"
    by code_simp+
  have d: "map usedCount (proxies (fst (snd (Get (exampleGetEnv (Some 5)) examplePool)))) = [5, 0]"
    by code_simp
  have "fst (Get (exampleGetEnv None) (New (exampleConfig 5 180 3))) = Error ErrNoAvailableProxy"
    using Get_NoAvailableProxy_iff [of "exampleGetEnv None" "New (exampleConfig 5 180 3)"] a
    by blast
  moreover have "fst (Get (exampleGetEnv (Some 5)) examplePool) = Error ErrNoAvailableProxy"
    using Get_NoAvailableProxy_iff [of "exampleGetEnv (Some 5)" examplePool] b by simp
  moreover have "fst (claimSelected (exampleGetEnv None) (Get_pool (exampleGetEnv None) examplePool))"
    using Get_NoAvailableProxy_iff [of "exampleGetEnv None" examplePool] c by blast
  ultimately show ?thesis
    using a b c d by blast
qed

section \<open>Round-robin selection\<close>

lemma visits_0 [simp]: "visits c 0 n i = 0"
  by (simp add: visits_def)

lemma visits_Suc:
  "visits c (Suc k) n i = (if c mod n = i then 1 else 0) + visits (Suc c) k n i"
proof -
  have "[0..<Suc k] = 0 # map Suc [0..<k]"
    by (simp add: upt_conv_Cons map_Suc_upt del: upt_Suc)
  then show ?thesis
    by (simp add: visits_def filter_map o_def del: upt_Suc)
qed

lemma availableSlots_all:
  assumes "\<And>i. i < length ps \<Longrightarrow> IsAvailable (clk i) (ps ! i)"
  shows "availableSlots clk ps = [0..<length ps]"
  unfolding availableSlots_def by (rule filter_True) (simp add: assms)

lemma cleanupUnsafe_all:
  assumes "\<And>i. i < length (proxies p) \<Longrightarrow> IsAvailable (clk i) (proxies p ! i)"
  shows "cleanupUnsafe clk p = p"
  by (simp add: cleanupUnsafe_def availableSlots_all [OF assms] map_nth)

lemma Get_round_robin_step:
  assumes ne: "proxies p \<noteq> []"
    and av: "\<And>i. i < length (proxies p) \<Longrightarrow>
          IsAvailable (cleanupClock env i) (proxies p ! i)
          \<and> IsAvailable (availableClock env i) (proxies p ! i)"
    and quiet: "raceBefore env = None" "raceCAS env = []"
    and cur: "0 \<le> sint (roundRobinIdx p)"
  defines "j \<equiv> nat (sint (roundRobinIdx p)) mod length (proxies p)"
  defines "x \<equiv> (proxies p ! j)\<lparr>usedCount := usedCount (proxies p ! j) + 1,
                  lastUseTime := Some (useClock env)\<rparr>"
  shows "fst (Get env p) = Proxy x"
    and "fst (snd (Get env p))
          = p\<lparr>roundRobinIdx := roundRobinIdx p + 1, proxies := (proxies p)[j := x]\<rparr>"
proof -
  let ?n = "length (proxies p)"
  have n: "0 < ?n" using ne by simp
  have clean: "cleanupUnsafe (cleanupClock env) p = p"
    by (rule cleanupUnsafe_all) (simp add: av)
  have pool: "Get_pool env p = p"
    using ne by (simp add: Get_pool_def Get_replenish_def clean Let_def)
  have slots: "availableSlots (availableClock env) (proxies p) = [0..<?n]"
    by (rule availableSlots_all) (simp add: av)
  have idx: "sint (roundRobinIdx p) smod int ?n = sint (roundRobinIdx p) mod int ?n"
    using cur by (simp add: smod_mod_positive)
  have idx0: "0 \<le> sint (roundRobinIdx p) mod int ?n"
    using n by simp
  have "nat (sint (roundRobinIdx p) mod int ?n) = j"
    using cur by (simp add: j_def nat_mod_distrib)
  moreover have "j < ?n"
    using n by (simp add: j_def)
  ultimately have slot: "selectedSlot env p = j"
    by (simp add: selectedSlot_def slots idx)
  have "usedCount (proxies p ! j) <s maxUseCount (proxies p ! j)"
    using av [OF \<open>j < ?n\<close>] by (simp add: IsAvailable_def)
  then have claim: "claimSelected env p = (True, x)"
    by (simp add: claimSelected_def slot quiet IncrementUseCount_success x_def
        del: IncrementUseCount.simps)
  have sel: "Get_select env (p, evs) =
      (Proxy x, p\<lparr>roundRobinIdx := roundRobinIdx p + 1, proxies := (proxies p)[j := x]\<rparr>,
       evs @ (if onProxyGet p then [OnProxyGetCalled x] else []))" for evs
    using ne n idx0 by (subst Get_select_claim) (simp_all add: slots idx claim slot)
  show "fst (Get env p) = Proxy x"
    and "fst (snd (Get env p))
          = p\<lparr>roundRobinIdx := roundRobinIdx p + 1, proxies := (proxies p)[j := x]\<rparr>"
    using pool by (simp_all add: Get_as_select sel)
qed

lemma sint_succ_bounded:
  fixes c :: int64
  assumes "sint c + 1 < 2 ^ 63"
  shows "sint (c + 1) = sint c + 1"
proof -
  have "- (2 ^ 63) \<le> sint c"
    using sint_ge [of c] by simp
  with assms have "- (2 ^ 63) \<le> sint c + 1 \<and> sint c + 1 < 2 ^ 63"
    by linarith
  then show ?thesis
    by (simp add: sint_word_ariths signed_take_bit_int_eq_self)
qed

lemma Gets_Cons:
  "Gets (env # envs) p =
     (fst (Get env p) # fst (Gets envs (fst (snd (Get env p)))),
      snd (Gets envs (fst (snd (Get env p)))))"
  by (simp add: case_prod_beta Let_def)

lemma Gets_round_robin:
  assumes "proxies p \<noteq> []"
    and "\<forall>env\<in>set envs. raceBefore env = None \<and> raceCAS env = []"
    and "\<forall>env\<in>set envs. \<forall>i<length (proxies p).
          cleanupClock env i < expireTime (proxies p ! i)
          \<and> availableClock env i < expireTime (proxies p ! i)"
    and "\<forall>i<length (proxies p).
          sint (usedCount (proxies p ! i))
            + int (visits (nat (sint (roundRobinIdx p))) (length envs) (length (proxies p)) i)
          < sint (maxUseCount (proxies p ! i))"
    and "0 \<le> sint (roundRobinIdx p)"
    and "sint (roundRobinIdx p) + int (length envs) < 2 ^ 63"
  shows "fst (Gets envs p) =
      map (\<lambda>k. Proxy ((proxies p ! ((nat (sint (roundRobinIdx p)) + k) mod length (proxies p)))
             \<lparr>usedCount :=
                usedCount (proxies p ! ((nat (sint (roundRobinIdx p)) + k) mod length (proxies p)))
                + of_nat (visits (nat (sint (roundRobinIdx p))) (Suc k) (length (proxies p))
                    ((nat (sint (roundRobinIdx p)) + k) mod length (proxies p))),
              lastUseTime := Some (useClock (envs ! k))\<rparr>))
        [0..<length envs]
    \<and> length (proxies (snd (Gets envs p))) = length (proxies p)
    \<and> (\<forall>i<length (proxies p).
          usedCount (proxies (snd (Gets envs p)) ! i)
            = usedCount (proxies p ! i)
              + of_nat (visits (nat (sint (roundRobinIdx p))) (length envs) (length (proxies p)) i)
          \<and> String (proxies (snd (Gets envs p)) ! i) = String (proxies p ! i))
    \<and> roundRobinIdx (snd (Gets envs p)) = roundRobinIdx p + of_nat (length envs)"
  using assms
proof (induction envs arbitrary: p)
  case Nil
  show ?case by simp
next
  case (Cons env envs)
  let ?ps = "proxies p"
  let ?n = "length ?ps"
  let ?c = "nat (sint (roundRobinIdx p))"
  let ?j = "?c mod ?n"
  define x where "x = (?ps ! ?j)\<lparr>usedCount := usedCount (?ps ! ?j) + 1,
      lastUseTime := Some (useClock env)\<rparr>"
  define p' where "p' = p\<lparr>roundRobinIdx := roundRobinIdx p + 1, proxies := ?ps[?j := x]\<rparr>"
  have n: "0 < ?n" using Cons.prems(1) by simp
  have j: "?j < ?n" using n by simp
  have below: "usedCount (?ps ! i) <s maxUseCount (?ps ! i)" if "i < ?n" for i
  proof -
    have "sint (usedCount (?ps ! i)) < sint (maxUseCount (?ps ! i))"
      using Cons.prems(4) that by fastforce
    then show ?thesis by (simp add: word_sless_alt)
  qed
  have avail: "IsAvailable (cleanupClock env i) (?ps ! i) \<and> IsAvailable (availableClock env i) (?ps ! i)"
    if "i < ?n" for i
    using Cons.prems(3) that below [OF that] by (simp add: IsAvailable_def)
  have quiet: "raceBefore env = None" "raceCAS env = []"
    using Cons.prems(2) by simp_all
  have res: "fst (Get env p) = Proxy x" and pool: "fst (snd (Get env p)) = p'"
    using Get_round_robin_step [OF Cons.prems(1) avail quiet Cons.prems(5)]
    by (simp_all add: x_def p'_def)
  have len: "length (proxies p') = ?n"
    by (simp add: p'_def)
  have item: "proxies p' ! i = (if i = ?j then x else ?ps ! i)" if "i < ?n" for i
    using that j by (auto simp add: p'_def nth_list_update)
  have same: "expireTime (proxies p' ! i) = expireTime (?ps ! i)"
    "maxUseCount (proxies p' ! i) = maxUseCount (?ps ! i)"
    "String (proxies p' ! i) = String (?ps ! i)" if "i < ?n" for i
    using that by (simp_all add: item x_def String_def)
  have cur1: "sint (roundRobinIdx p') = sint (roundRobinIdx p) + 1"
    using Cons.prems(6) by (simp add: p'_def sint_succ_bounded)
  then have c': "nat (sint (roundRobinIdx p')) = Suc ?c"
    using Cons.prems(5) by simp
  have used': "sint (usedCount (proxies p' ! i))
      = sint (usedCount (?ps ! i)) + (if i = ?j then 1 else 0)" if "i < ?n" for i
    using that below [OF j] by (simp add: item x_def sint_succ_below)
  have used'': "usedCount (proxies p' ! i)
      = usedCount (?ps ! i) + (if i = ?j then 1 else 0)" if "i < ?n" for i
    using that by (simp add: item x_def)
  have v: "visits ?c (Suc k) ?n i = (if i = ?j then 1 else 0) + visits (Suc ?c) k ?n i" for k i
    by (auto simp add: visits_Suc)
  have ih: "fst (Gets envs p') =
      map (\<lambda>k. Proxy ((proxies p' ! ((Suc ?c + k) mod ?n))
             \<lparr>usedCount := usedCount (proxies p' ! ((Suc ?c + k) mod ?n))
                + of_nat (visits (Suc ?c) (Suc k) ?n ((Suc ?c + k) mod ?n)),
              lastUseTime := Some (useClock (envs ! k))\<rparr>))
        [0..<length envs]
    \<and> length (proxies (snd (Gets envs p'))) = ?n
    \<and> (\<forall>i<?n. usedCount (proxies (snd (Gets envs p')) ! i)
            = usedCount (proxies p' ! i) + of_nat (visits (Suc ?c) (length envs) ?n i)
          \<and> String (proxies (snd (Gets envs p')) ! i) = String (proxies p' ! i))
    \<and> roundRobinIdx (snd (Gets envs p')) = roundRobinIdx p' + of_nat (length envs)"
  proof -
    have 1: "proxies p' \<noteq> []" using n len by auto
    have 2: "\<forall>env\<in>set envs. raceBefore env = None \<and> raceCAS env = []"
      using Cons.prems(2) by simp
    have 3: "\<forall>env\<in>set envs. \<forall>i<length (proxies p').
          cleanupClock env i < expireTime (proxies p' ! i)
          \<and> availableClock env i < expireTime (proxies p' ! i)"
      using Cons.prems(3) by (simp add: len same)
    have 4: "\<forall>i<length (proxies p').
          sint (usedCount (proxies p' ! i))
            + int (visits (nat (sint (roundRobinIdx p'))) (length envs) (length (proxies p')) i)
          < sint (maxUseCount (proxies p' ! i))"
    proof (intro allI impI)
      fix i assume "i < length (proxies p')"
      then have i: "i < ?n" by (simp add: len)
      have "sint (usedCount (?ps ! i)) + int (visits ?c (Suc (length envs)) ?n i)
          < sint (maxUseCount (?ps ! i))"
        using Cons.prems(4) i by simp
      then show "sint (usedCount (proxies p' ! i))
            + int (visits (nat (sint (roundRobinIdx p'))) (length envs) (length (proxies p')) i)
          < sint (maxUseCount (proxies p' ! i))"
        by (simp add: len c' used' [OF i] same(2) [OF i] v [where k = "length envs" and i = i] split: if_splits)
    qed
    have 5: "0 \<le> sint (roundRobinIdx p')"
      using cur1 Cons.prems(5) by simp
    have 6: "sint (roundRobinIdx p') + int (length envs) < 2 ^ 63"
      using cur1 Cons.prems(6) by simp
    from Cons.IH [OF 1 2 3 4 5 6] show ?thesis
      by (simp add: c' len)
  qed
  have shift: "[0..<Suc (length envs)] = 0 # map Suc [0..<length envs]"
    by (simp add: upt_conv_Cons map_Suc_upt del: upt_Suc)
  have snap: "(proxies p' ! s)\<lparr>usedCount := usedCount (proxies p' ! s) + of_nat (visits (Suc ?c) k ?n s),
        lastUseTime := t\<rparr>
      = (?ps ! s)\<lparr>usedCount := usedCount (?ps ! s) + of_nat (visits ?c (Suc k) ?n s),
        lastUseTime := t\<rparr>" if "s < ?n" for s k t
    using that by (simp add: item v x_def)
  have first: "Proxy x = Proxy ((?ps ! ((?c + 0) mod ?n))
             \<lparr>usedCount := usedCount (?ps ! ((?c + 0) mod ?n))
                + of_nat (visits ?c (Suc 0) ?n ((?c + 0) mod ?n)),
              lastUseTime := Some (useClock ((env # envs) ! 0))\<rparr>)"
    by (simp add: visits_Suc x_def)
  have rest: "Proxy ((proxies p' ! ((Suc ?c + k) mod ?n))
             \<lparr>usedCount := usedCount (proxies p' ! ((Suc ?c + k) mod ?n))
                + of_nat (visits (Suc ?c) (Suc k) ?n ((Suc ?c + k) mod ?n)),
              lastUseTime := Some (useClock (envs ! k))\<rparr>)
      = Proxy ((?ps ! ((?c + Suc k) mod ?n))
             \<lparr>usedCount := usedCount (?ps ! ((?c + Suc k) mod ?n))
                + of_nat (visits ?c (Suc (Suc k)) ?n ((?c + Suc k) mod ?n)),
              lastUseTime := Some (useClock ((env # envs) ! Suc k))\<rparr>)" for k
    using snap [where s = "(Suc ?c + k) mod ?n" and k = "Suc k"] n by simp
  have "fst (Gets (env # envs) p) =
      map (\<lambda>k. Proxy ((?ps ! ((?c + k) mod ?n))
             \<lparr>usedCount := usedCount (?ps ! ((?c + k) mod ?n))
                + of_nat (visits ?c (Suc k) ?n ((?c + k) mod ?n)),
              lastUseTime := Some (useClock ((env # envs) ! k))\<rparr>))
        [0..<length (env # envs)]"
    unfolding Gets_Cons res pool fst_conv length_Cons shift list.map map_map o_def
    using ih first rest by (simp del: Gets.simps)
  moreover have "length (proxies (snd (Gets (env # envs) p))) = ?n"
    by (simp add: Gets_Cons pool ih del: Gets.simps)
  moreover have "\<forall>i<?n. usedCount (proxies (snd (Gets (env # envs) p)) ! i)
            = usedCount (?ps ! i) + of_nat (visits ?c (length (env # envs)) ?n i)
          \<and> String (proxies (snd (Gets (env # envs) p)) ! i) = String (?ps ! i)"
    by (simp add: Gets_Cons pool ih used'' same v del: Gets.simps)
  moreover have "roundRobinIdx (snd (Gets (env # envs) p))
      = roundRobinIdx p + of_nat (length (env # envs))"
    by (simp add: Gets_Cons pool ih del: Gets.simps) (simp add: p'_def)
  ultimately show ?case by blast
qed

lemma visits_mod: "visits c k n i = visits (c mod n) k n i"
  by (simp add: visits_def mod_add_left_eq)

lemma upt_6: "[0..<6] = [0, 1, 2, 3, 4, 5 :: nat]"
  by code_simp

lemma upt_Suc_k:
  "[0..<Suc 0] = [0]" "[0..<Suc 1] = [0, 1]" "[0..<Suc 2] = [0, 1, 2]"
  "[0..<Suc 3] = [0, 1, 2, 3]" "[0..<Suc 4] = [0, 1, 2, 3, 4]"
  "[0..<Suc 5] = [0, 1, 2, 3, 4, 5 :: nat]"
  by code_simp+

lemma visits_3_6:
  assumes "i < 3"
  shows "visits c 6 3 i = 2"
proof -
  have concrete: "visits r 6 3 i = 2"
    if "r = 0 \<or> r = 1 \<or> r = 2" "i = 0 \<or> i = 1 \<or> i = 2" for r i :: nat
    using that by (elim disjE) (simp, code_simp)+
  have "c mod 3 = 0 \<or> c mod 3 = 1 \<or> c mod 3 = 2"
    by linarith
  moreover have "i = 0 \<or> i = 1 \<or> i = 2"
    using assms by linarith
  ultimately have "visits (c mod 3) 6 3 i = 2"
    by (rule concrete)
  then show ?thesis
    by (subst visits_mod)
qed

lemma visits_slot_mod:
  "visits c k n ((c + j) mod n) = visits (c mod n) k n ((c mod n + j) mod n)"
  by (subst visits_mod) (simp only: mod_add_left_eq)

lemma visits_3_upto:
  "visits c (Suc 0) 3 ((c + 0) mod 3) = 1 \<and>
   visits c (Suc 1) 3 ((c + 1) mod 3) = 1 \<and>
   visits c (Suc 2) 3 ((c + 2) mod 3) = 1 \<and>
   visits c (Suc 3) 3 ((c + 3) mod 3) = 2 \<and>
   visits c (Suc 4) 3 ((c + 4) mod 3) = 2 \<and>
   visits c (Suc 5) 3 ((c + 5) mod 3) = 2"
proof -
  have concrete: "visits r (Suc 0) 3 ((r + 0) mod 3) = 1 \<and>
     visits r (Suc 1) 3 ((r + 1) mod 3) = 1 \<and>
     visits r (Suc 2) 3 ((r + 2) mod 3) = 1 \<and>
     visits r (Suc 3) 3 ((r + 3) mod 3) = 2 \<and>
     visits r (Suc 4) 3 ((r + 4) mod 3) = 2 \<and>
     visits r (Suc 5) 3 ((r + 5) mod 3) = 2" if "r = 0 \<or> r = 1 \<or> r = 2" for r :: nat
    using that by (elim disjE) (simp, code_simp)+
  have "c mod 3 = 0 \<or> c mod 3 = 1 \<or> c mod 3 = 2"
    by linarith
  from concrete [OF this] show ?thesis
    unfolding visits_slot_mod [of c _ 3] .
qed

text \<open>
  C8. A pool of three items, six successive calls of \<open>Get\<close> with no interference on
  the counters; every clock reading of the calls is before the expiry of every item and
  every item has more than two uses left, so that all three stay available throughout;
  the cursor is not negative and does not wrap during the calls. Then the \<open>k\<close>-th call
  returns the item of slot \<open>(cursor + k) mod 3\<close>, with its counter advanced by one on
  the first visit and by two on the second: the six calls go through the three slots
  in cyclic order, twice, and each slot is selected exactly twice. Afterwards every
  counter has advanced by exactly two and the cursor by six.
\<close>

theorem six_Gets_round_robin:
  assumes "length (proxies p) = 3" and "length envs = 6"
    and "\<forall>env\<in>set envs. raceBefore env = None \<and> raceCAS env = []"
    and "\<forall>env\<in>set envs. \<forall>i<3.
          cleanupClock env i < expireTime (proxies p ! i)
          \<and> availableClock env i < expireTime (proxies p ! i)"
    and "\<forall>i<3. sint (usedCount (proxies p ! i)) + 2 < sint (maxUseCount (proxies p ! i))"
    and "0 \<le> sint (roundRobinIdx p)" and "sint (roundRobinIdx p) + 6 < 2 ^ 63"
  shows "fst (Gets envs p) =
      map (\<lambda>k. Proxy ((proxies p ! ((nat (sint (roundRobinIdx p)) + k) mod 3))
             \<lparr>usedCount := usedCount (proxies p ! ((nat (sint (roundRobinIdx p)) + k) mod 3))
                + (if k < 3 then 1 else 2),
              lastUseTime := Some (useClock (envs ! k))\<rparr>))
        [0, 1, 2, 3, 4, 5]
    \<and> (\<forall>i<3. visits (nat (sint (roundRobinIdx p))) 6 3 i = 2)
    \<and> (\<forall>i<3. usedCount (proxies (snd (Gets envs p)) ! i) = usedCount (proxies p ! i) + 2
          \<and> String (proxies (snd (Gets envs p)) ! i) = String (proxies p ! i))
    \<and> length (proxies (snd (Gets envs p))) = 3
    \<and> roundRobinIdx (snd (Gets envs p)) = roundRobinIdx p + 6"
proof -
  let ?c = "nat (sint (roundRobinIdx p))"
  have ne: "proxies p \<noteq> []"
    using assms(1) by auto
  have alive: "\<forall>env\<in>set envs. \<forall>i<length (proxies p).
          cleanupClock env i < expireTime (proxies p ! i)
          \<and> availableClock env i < expireTime (proxies p ! i)"
    using assms(4) by (simp add: assms(1))
  have budget: "\<forall>i<length (proxies p).
          sint (usedCount (proxies p ! i)) + int (visits ?c (length envs) (length (proxies p)) i)
          < sint (maxUseCount (proxies p ! i))"
    using assms(5) by (simp add: assms(1,2) visits_3_6)
  have cur: "sint (roundRobinIdx p) + int (length envs) < 2 ^ 63"
    using assms(7) by (simp add: assms(2))
  note rr = Gets_round_robin [OF ne assms(3) alive budget assms(6) cur]
  have "fst (Gets envs p) =
      map (\<lambda>k. Proxy ((proxies p ! ((?c + k) mod 3))
             \<lparr>usedCount := usedCount (proxies p ! ((?c + k) mod 3)) + (if k < 3 then 1 else 2),
              lastUseTime := Some (useClock (envs ! k))\<rparr>))
        [0, 1, 2, 3, 4, 5]"
    using rr visits_3_upto [of ?c] by (simp add: assms(1,2) upt_6)
  moreover have "\<forall>i<3. visits ?c 6 3 i = 2"
    by (simp add: visits_3_6)
  moreover have "\<forall>i<3. usedCount (proxies (snd (Gets envs p)) ! i) = usedCount (proxies p ! i) + 2
          \<and> String (proxies (snd (Gets envs p)) ! i) = String (proxies p ! i)"
    using rr by (simp add: assms(1,2) visits_3_6)
  moreover have "length (proxies (snd (Gets envs p))) = 3"
    using rr by (simp add: assms(1))
  moreover have "roundRobinIdx (snd (Gets envs p)) = roundRobinIdx p + 6"
    using rr by (simp add: assms(2))
  ultimately show ?thesis by blast
qed

theorem six_Gets_round_robin_witness:
  "length (proxies examplePool3) = 3
   \<and> length (replicate 6 (exampleGetEnv None)) = 6
   \<and> raceBefore (exampleGetEnv None) = None \<and> raceCAS (exampleGetEnv None) = []
   \<and> map expireTime (proxies examplePool3) = [180000000000, 180000000000, 180000000000]
   \<and> map usedCount (proxies examplePool3) = [0, 0, 0]
   \<and> map maxUseCount (proxies examplePool3) = [5, 5, 5]
   \<and> sint (roundRobinIdx examplePool3) = 0
   \<and> map returned (fst (Gets (replicate 6 (exampleGetEnv None)) examplePool3))
       = [Some ''10.0.0.1:8080'', Some ''10.0.0.2:8080'', Some ''10.0.0.3:8080'',
          Some ''10.0.0.1:8080'', Some ''10.0.0.2:8080'', Some ''10.0.0.3:8080'']
   \<and> map usedCount (proxies (snd (Gets (replicate 6 (exampleGetEnv None)) examplePool3)))
       = [2, 2, 2]
   \<and> roundRobinIdx (snd (Gets (replicate 6 (exampleGetEnv None)) examplePool3)) = 6"
proof -
  let ?envs = "replicate 6 (exampleGetEnv None)"
  have three: "i = 0 \<or> i = 1 \<or> i = 2" if "i < 3" for i :: nat
    using that by linarith
  have len: "length (proxies examplePool3) = 3"
    by code_simp
  have q: "raceBefore (exampleGetEnv None) = None" "raceCAS (exampleGetEnv None) = []"
    by (simp_all add: exampleGetEnv_def)
  have e: "map expireTime (proxies examplePool3) = [180000000000, 180000000000, 180000000000]"
    and u: "map usedCount (proxies examplePool3) = [0, 0, 0]"
    and m: "map maxUseCount (proxies examplePool3) = [5, 5, 5]"
    and c: "sint (roundRobinIdx examplePool3) = 0"
    by code_simp+
  have e': "expireTime (proxies examplePool3 ! i) = 180000000000" if "i < 3" for i
    using three [OF that] arg_cong [OF e, of "\<lambda>xs. xs ! i"] len by auto
  have u': "usedCount (proxies examplePool3 ! i) = 0" if "i < 3" for i
    using three [OF that] arg_cong [OF u, of "\<lambda>xs. xs ! i"] len by auto
  have m': "maxUseCount (proxies examplePool3 ! i) = 5" if "i < 3" for i
    using three [OF that] arg_cong [OF m, of "\<lambda>xs. xs ! i"] len by auto
  have 3: "\<forall>env\<in>set ?envs. raceBefore env = None \<and> raceCAS env = []"
    using q by simp
  have 4: "\<forall>env\<in>set ?envs. \<forall>i<3.
          cleanupClock env i < expireTime (proxies examplePool3 ! i)
          \<and> availableClock env i < expireTime (proxies examplePool3 ! i)"
    by (simp add: e' exampleGetEnv_def fixedClock_def)
  have 5: "\<forall>i<3. sint (usedCount (proxies examplePool3 ! i)) + 2
      < sint (maxUseCount (proxies examplePool3 ! i))"
    by (simp add: u' m')
  have 6: "0 \<le> sint (roundRobinIdx examplePool3)"
    and 7: "sint (roundRobinIdx examplePool3) + 6 < 2 ^ 63"
    by (simp_all add: c)
  have 2: "length ?envs = 6" by simp
  note six = six_Gets_round_robin [OF len 2 3 4 5 6 7]
  have r: "roundRobinIdx (snd (Gets ?envs examplePool3)) = roundRobinIdx examplePool3 + 6"
    using six by blast
  have "roundRobinIdx examplePool3 = 0"
    by code_simp
  with r have "roundRobinIdx (snd (Gets ?envs examplePool3)) = 6"
    by simp
  moreover have "map returned (fst (Gets ?envs examplePool3))
       = [Some ''10.0.0.1:8080'', Some ''10.0.0.2:8080'', Some ''10.0.0.3:8080'',
          Some ''10.0.0.1:8080'', Some ''10.0.0.2:8080'', Some ''10.0.0.3:8080'']"
    by code_simp
  moreover have "map usedCount (proxies (snd (Gets ?envs examplePool3))) = [2, 2, 2]"
    by code_simp
  ultimately show ?thesis
    using len 2 q e u m c by blast
qed

end
